theory Spec2Isabelle
  imports Main
begin

section \<open>The primitives the wrappers are built on\<close>

text \<open>
  \<^verbatim>\<open>main.cpp\<close> defines two class templates, \<^verbatim>\<open>execute_around\<close> and
  \<^verbatim>\<open>safe_ptr\<close>, on top of three library classes: \<^verbatim>\<open>std::recursive_mutex\<close>,
  \<^verbatim>\<open>std::unique_lock\<close> and \<^verbatim>\<open>std::shared_ptr\<close>. The library classes are
  modelled by what the C++ standard says of them; the two templates and their nested
  accessor classes are translated member by member.

  Objects that \<^verbatim>\<open>std::make_shared\<close> creates live in a store from addresses to
  values; a \<^verbatim>\<open>std::shared_ptr\<close> is the address it points to, so that two
  \<^verbatim>\<open>shared_ptr\<close>s that were copied from each other are equal addresses (use counts
  are left out: no wrapper is destroyed in what follows, except when a constructor
  unwinds). Every operation that takes a lock says which thread runs it.

  The console output of \<^verbatim>\<open>execute_around::proxy\<close> is not modelled.
\<close>

type_synonym addr = nat
type_synonym tid = nat

text \<open>
  What a call does: it returns; it blocks (the calling thread waits for a mutex another
  thread owns: in the state at hand the call does not return); it throws
  \<^verbatim>\<open>std::system_error\<close> (a lock beyond the maximal level of ownership of a
  recursive mutex); its behaviour is undefined (a dangling pointer, an unlock by a
  thread that is not the owner); or the call does not compile (a non-const member
  function on a const object).
\<close>

datatype 'a outcome = Returns 'a | Blocks | Throws | Undefined | Ill_formed

fun and_then :: "'a outcome \<Rightarrow> ('a \<Rightarrow> 'b outcome) \<Rightarrow> 'b outcome" where
  "and_then (Returns x) f = f x"
| "and_then Blocks f = Blocks"
| "and_then Throws f = Throws"
| "and_then Undefined f = Undefined"
| "and_then Ill_formed f = Ill_formed"

subsection \<open>std::recursive_mutex\<close>

text \<open>
  A recursive mutex is free or owned by one thread, which may lock it again; it is
  released when the owner has unlocked it as often as it locked it. \<open>Held t n\<close>:
  thread \<open>t\<close> owns the mutex and has locked it \<open>Suc n\<close> times (its level of
  ownership). \<^verbatim>\<open>lock()\<close> blocks while another thread owns the mutex, and throws
  \<^verbatim>\<open>std::system_error\<close> when the owner has reached the maximal level of
  ownership; \<^verbatim>\<open>unlock()\<close> by a thread that does not own the mutex is undefined.
  The standard leaves the maximal level unspecified; \<open>max_level\<close> is that of
  libstdc++ on glibc, where the level is counted in an \<^verbatim>\<open>unsigned int\<close>.
\<close>

datatype recursive_mutex = Free | Held tid nat

definition max_level :: nat where
  "max_level = 4294967295"

fun owner :: "recursive_mutex \<Rightarrow> tid option" where
  "owner Free = None"
| "owner (Held t n) = Some t"

fun depth :: "recursive_mutex \<Rightarrow> nat" where
  "depth Free = 0"
| "depth (Held t n) = Suc n"

fun mutex_lock :: "tid \<Rightarrow> recursive_mutex \<Rightarrow> recursive_mutex outcome" where
  "mutex_lock t Free = Returns (Held t 0)"
| "mutex_lock t (Held u n) =
     (if u = t then (if Suc n < max_level then Returns (Held u (Suc n)) else Throws)
      else Blocks)"

fun mutex_unlock :: "tid \<Rightarrow> recursive_mutex \<Rightarrow> recursive_mutex outcome" where
  "mutex_unlock t Free = Undefined"
| "mutex_unlock t (Held u n) =
     (if u = t then Returns (case n of 0 \<Rightarrow> Free | Suc k \<Rightarrow> Held u k) else Undefined)"

subsection \<open>The store, std::make_shared\<close>

record 'a heap =
  objs :: "addr \<rightharpoonup> 'a"
  mtxs :: "addr \<rightharpoonup> recursive_mutex"
  next_addr :: addr

definition empty_heap :: "'a heap" where
  "empty_heap = \<lparr>objs = Map.empty, mtxs = Map.empty, next_addr = 0\<rparr>"

text \<open>Every address in use lies below the next address to hand out.\<close>

definition heap_ok :: "'a heap \<Rightarrow> bool" where
  "heap_ok h \<longleftrightarrow> (\<forall>a. next_addr h \<le> a \<longrightarrow> objs h a = None \<and> mtxs h a = None)"

definition make_shared :: "'a \<Rightarrow> 'a heap \<Rightarrow> addr \<times> 'a heap" where
  "make_shared v h =
     (next_addr h, h\<lparr>objs := (objs h)(next_addr h \<mapsto> v), next_addr := Suc (next_addr h)\<rparr>)"

definition make_shared_mutex :: "'a heap \<Rightarrow> addr \<times> 'a heap" where
  "make_shared_mutex h =
     (next_addr h,
      h\<lparr>mtxs := (mtxs h)(next_addr h \<mapsto> Free), next_addr := Suc (next_addr h)\<rparr>)"


subsection \<open>std::unique_lock\<close>

text \<open>
  A \<^verbatim>\<open>unique_lock\<close> holds a pointer to its mutex and the flag \<^verbatim>\<open>owns\<close>.
  \<^verbatim>\<open>unique_lock(m)\<close> locks \<^verbatim>\<open>m\<close>; the move constructor takes pointer and flag
  over and leaves the source with no mutex and \<^verbatim>\<open>owns = false\<close>; the destructor
  unlocks when \<^verbatim>\<open>owns\<close> is true.
\<close>

record unique_lock =
  pm :: "addr option"
  owns :: bool

definition unique_lock_ctor :: "tid \<Rightarrow> addr \<Rightarrow> 'a heap \<Rightarrow> (unique_lock \<times> 'a heap) outcome" where
  "unique_lock_ctor t a h =
     (case mtxs h a of
        None \<Rightarrow> Undefined
      | Some m \<Rightarrow>
          and_then (mutex_lock t m)
            (\<lambda>m'. Returns (\<lparr>pm = Some a, owns = True\<rparr>, h\<lparr>mtxs := (mtxs h)(a \<mapsto> m')\<rparr>)))"

text \<open>The pair is (the new lock, the source after the move).\<close>

definition unique_lock_move :: "unique_lock \<Rightarrow> unique_lock \<times> unique_lock" where
  "unique_lock_move u = (\<lparr>pm = pm u, owns = owns u\<rparr>, \<lparr>pm = None, owns = False\<rparr>)"

definition unique_lock_dtor :: "tid \<Rightarrow> unique_lock \<Rightarrow> 'a heap \<Rightarrow> 'a heap outcome" where
  "unique_lock_dtor t u h =
     (if owns u then
        (case pm u of
           None \<Rightarrow> Undefined
         | Some a \<Rightarrow>
             (case mtxs h a of
                None \<Rightarrow> Undefined
              | Some m \<Rightarrow>
                  and_then (mutex_unlock t m)
                    (\<lambda>m'. Returns (h\<lparr>mtxs := (mtxs h)(a \<mapsto> m')\<rparr>))))
      else Returns h)"

subsection \<open>Pointers to the wrapped value and calls through them\<close>

text \<open>
  An accessor hands out \<^verbatim>\<open>T*\<close> or \<^verbatim>\<open>const T*\<close>. A member function of
  \<^verbatim>\<open>T\<close> is const (it reads the value) or not (it may change it); a non-const member
  function cannot be called through a \<^verbatim>\<open>const T*\<close>.
\<close>

datatype pointer = Ptr addr | Const_ptr addr

datatype ('a, 'r) member = Const_member "'a \<Rightarrow> 'r" | Member "'a \<Rightarrow> 'r \<times> 'a"

fun call :: "pointer \<Rightarrow> ('a, 'r) member \<Rightarrow> 'a heap \<Rightarrow> ('r \<times> 'a heap) outcome" where
  "call (Ptr a) (Const_member f) h =
     (case objs h a of None \<Rightarrow> Undefined | Some v \<Rightarrow> Returns (f v, h))"
| "call (Ptr a) (Member g) h =
     (case objs h a of
        None \<Rightarrow> Undefined
      | Some v \<Rightarrow> Returns (fst (g v), h\<lparr>objs := (objs h)(a \<mapsto> snd (g v))\<rparr>))"
| "call (Const_ptr a) (Const_member f) h =
     (case objs h a of None \<Rightarrow> Undefined | Some v \<Rightarrow> Returns (f v, h))"
| "call (Const_ptr a) (Member g) h = Ill_formed"

text \<open>An object expression is const-qualified or not; overloads are chosen by it.\<close>

datatype 'x cv = Mutable 'x | Const 'x

fun unqual :: "'x cv \<Rightarrow> 'x" where
  "unqual (Mutable x) = x"
| "unqual (Const x) = x"

section \<open>execute\_around and its proxy\<close>

subsection \<open>execute\_around::proxy\<close>

text \<open>
  \<^verbatim>\<open>proxy(T * const _p, mutex_type &_mtx) : lock(_mtx), p(_p)\<close>,
  \<^verbatim>\<open>proxy(proxy &&px) : lock(std::move(px.lock)), p(px.p)\<close>, the destructor (which
  destroys the member \<^verbatim>\<open>lock\<close>) and the two overloads of \<^verbatim>\<open>operator->\<close>. The
  fields carry the prefix \<open>px_\<close>.
\<close>

record proxy =
  px_lock :: unique_lock
  px_p :: addr

definition proxy_ctor :: "tid \<Rightarrow> addr \<Rightarrow> addr \<Rightarrow> 'a heap \<Rightarrow> (proxy \<times> 'a heap) outcome" where
  "proxy_ctor t p_arg mtx_arg h =
     and_then (unique_lock_ctor t mtx_arg h)
       (\<lambda>(l, h'). Returns (\<lparr>px_lock = l, px_p = p_arg\<rparr>, h'))"

text \<open>The pair is (the new proxy, the source \<^verbatim>\<open>px\<close> after the move).\<close>

definition proxy_move :: "proxy \<Rightarrow> proxy \<times> proxy" where
  "proxy_move px =
     (\<lparr>px_lock = fst (unique_lock_move (px_lock px)), px_p = px_p px\<rparr>,
      px\<lparr>px_lock := snd (unique_lock_move (px_lock px))\<rparr>)"

definition proxy_dtor :: "tid \<Rightarrow> proxy \<Rightarrow> 'a heap \<Rightarrow> 'a heap outcome" where
  "proxy_dtor t px h = unique_lock_dtor t (px_lock px) h"

fun proxy_arrow :: "proxy cv \<Rightarrow> pointer" where
  "proxy_arrow (Mutable px) = Ptr (px_p px)"
| "proxy_arrow (Const px) = Const_ptr (px_p px)"

subsection \<open>execute\_around\<close>

text \<open>
  The members are \<^verbatim>\<open>std::shared_ptr<mutex_type> mtx\<close> and
  \<^verbatim>\<open>std::shared_ptr<T> p\<close>, initialised in this order (prefix \<open>ea_\<close>). The
  constructor of \<^verbatim>\<open>T\<close> is a parameter: it returns the value or the exception it
  throws. When it throws, the member \<^verbatim>\<open>mtx\<close>, already initialised, is destroyed,
  and with it the mutex.
\<close>

record execute_around =
  ea_mtx :: addr
  ea_p :: addr


text \<open>
  The class declares no copy constructor, and the constructor template is never
  instantiated to one, so a copy is made by the implicit copy constructor: each
  \<^verbatim>\<open>shared_ptr\<close> member is copied.
\<close>

definition execute_around_copy :: "execute_around \<Rightarrow> execute_around" where
  "execute_around_copy e = \<lparr>ea_mtx = ea_mtx e, ea_p = ea_p e\<rparr>"

text \<open>
  \<^verbatim>\<open>get_p() const\<close> and \<^verbatim>\<open>get_mtx() const\<close> return copies of the two
  \<^verbatim>\<open>shared_ptr\<close>s; \<^verbatim>\<open>get_p()\<close> is a \<^verbatim>\<open>shared_ptr<T>\<close>, whose
  \<^verbatim>\<open>get()\<close> and \<^verbatim>\<open>operator->\<close> give a \<^verbatim>\<open>T*\<close>.
\<close>

definition get_p :: "execute_around cv \<Rightarrow> addr" where
  "get_p e = ea_p (unqual e)"

definition get_mtx :: "execute_around cv \<Rightarrow> addr" where
  "get_mtx e = ea_mtx (unqual e)"

definition shared_ptr_get :: "addr \<Rightarrow> pointer" where
  "shared_ptr_get a = Ptr a"

text \<open>
  \<^verbatim>\<open>proxy operator -> () { return proxy(p.get(), *mtx); }\<close> and
  \<^verbatim>\<open>const proxy operator->() const { return proxy(p.get(), *mtx); }\<close>.
\<close>

fun execute_around_arrow ::
  "tid \<Rightarrow> execute_around cv \<Rightarrow> 'a heap \<Rightarrow> (proxy cv \<times> 'a heap) outcome" where
  "execute_around_arrow t (Mutable e) h =
     and_then (proxy_ctor t (ea_p e) (ea_mtx e) h) (\<lambda>(px, h'). Returns (Mutable px, h'))"
| "execute_around_arrow t (Const e) h =
     and_then (proxy_ctor t (ea_p e) (ea_mtx e) h) (\<lambda>(px, h'). Returns (Const px, h'))"

text \<open>
  The expression \<^verbatim>\<open>e->f(...)\<close>: the proxy is a temporary, created by
  \<^verbatim>\<open>e.operator->()\<close>; \<^verbatim>\<open>f\<close> is called through the proxy's own
  \<^verbatim>\<open>operator->\<close>; the proxy is destroyed at the end of the full expression.
\<close>

definition execute_around_call ::
  "tid \<Rightarrow> execute_around cv \<Rightarrow> ('a, 'r) member \<Rightarrow> 'a heap \<Rightarrow> ('r \<times> 'a heap) outcome" where
  "execute_around_call t e f h =
     and_then (execute_around_arrow t e h)
       (\<lambda>(px, h1). and_then (call (proxy_arrow px) f h1)
          (\<lambda>(r, h2). and_then (proxy_dtor t (unqual px) h2)
             (\<lambda>h3. Returns (r, h3))))"

section \<open>safe\_ptr and its two accessors\<close>

subsection \<open>The lock types\<close>

text \<open>
  \<^verbatim>\<open>safe_ptr\<close> has the template parameters \<^verbatim>\<open>mutex_t\<close>, \<^verbatim>\<open>x_lock_t\<close> and
  \<^verbatim>\<open>s_lock_t\<close>. Their defaults are modelled: \<^verbatim>\<open>std::recursive_mutex\<close> and, for
  both lock types, \<^verbatim>\<open>std::unique_lock<mutex_t>\<close>. A lock type enters the accessors
  by its constructor.
\<close>

type_synonym 'a req_lock = "tid \<Rightarrow> addr \<Rightarrow> 'a heap \<Rightarrow> (unique_lock \<times> 'a heap) outcome"

definition x_lock_t :: "'a req_lock" where
  "x_lock_t = unique_lock_ctor"

definition s_lock_t :: "'a req_lock" where
  "s_lock_t = unique_lock_ctor"

subsection \<open>safe\_ptr::auto\_lock\_t\<close>

text \<open>
  \<^verbatim>\<open>auto_lock_t(T * const _ptr, mutex_t &_mtx) : ptr(_ptr), lock(_mtx)\<close>,
  \<^verbatim>\<open>auto_lock_t(auto_lock_t &&o) : ptr(std::move(o.ptr)), lock(std::move(o.lock))\<close>,
  the implicit destructor and the two overloads of \<^verbatim>\<open>operator->\<close> (prefix
  \<open>al_\<close>).
\<close>

record auto_lock_t =
  al_ptr :: addr
  al_lock :: unique_lock

definition auto_lock_t_ctor ::
  "'a req_lock \<Rightarrow> tid \<Rightarrow> addr \<Rightarrow> addr \<Rightarrow> 'a heap \<Rightarrow> (auto_lock_t \<times> 'a heap) outcome" where
  "auto_lock_t_ctor req t ptr_arg mtx_arg h =
     and_then (req t mtx_arg h)
       (\<lambda>(l, h'). Returns (\<lparr>al_ptr = ptr_arg, al_lock = l\<rparr>, h'))"

definition auto_lock_t_move :: "auto_lock_t \<Rightarrow> auto_lock_t \<times> auto_lock_t" where
  "auto_lock_t_move o' =
     (\<lparr>al_ptr = al_ptr o', al_lock = fst (unique_lock_move (al_lock o'))\<rparr>,
      o'\<lparr>al_lock := snd (unique_lock_move (al_lock o'))\<rparr>)"

definition auto_lock_t_dtor :: "tid \<Rightarrow> auto_lock_t \<Rightarrow> 'a heap \<Rightarrow> 'a heap outcome" where
  "auto_lock_t_dtor t a h = unique_lock_dtor t (al_lock a) h"

fun auto_lock_t_arrow :: "auto_lock_t cv \<Rightarrow> pointer" where
  "auto_lock_t_arrow (Mutable a) = Ptr (al_ptr a)"
| "auto_lock_t_arrow (Const a) = Const_ptr (al_ptr a)"

subsection \<open>safe\_ptr::auto\_lock\_obj\_t\<close>

text \<open>
  The same members and constructors (prefix \<open>alo_\<close>); instead of
  \<^verbatim>\<open>operator->\<close> it has
  \<^verbatim>\<open>auto operator[](arg_t arg) -> decltype((*ptr)[arg]) { return (*ptr)[arg]; }\<close>,
  a non-const member function. The container's own \<^verbatim>\<open>operator[]\<close> is a parameter:
  from the argument and the container it gives what it returns and the container
  afterwards (a \<^verbatim>\<open>std::map\<close> inserts a missing key).
\<close>

record auto_lock_obj_t =
  alo_ptr :: addr
  alo_lock :: unique_lock

definition auto_lock_obj_t_ctor ::
  "'a req_lock \<Rightarrow> tid \<Rightarrow> addr \<Rightarrow> addr \<Rightarrow> 'a heap \<Rightarrow> (auto_lock_obj_t \<times> 'a heap) outcome" where
  "auto_lock_obj_t_ctor req t ptr_arg mtx_arg h =
     and_then (req t mtx_arg h)
       (\<lambda>(l, h'). Returns (\<lparr>alo_ptr = ptr_arg, alo_lock = l\<rparr>, h'))"

definition auto_lock_obj_t_move :: "auto_lock_obj_t \<Rightarrow> auto_lock_obj_t \<times> auto_lock_obj_t" where
  "auto_lock_obj_t_move o' =
     (\<lparr>alo_ptr = alo_ptr o', alo_lock = fst (unique_lock_move (alo_lock o'))\<rparr>,
      o'\<lparr>alo_lock := snd (unique_lock_move (alo_lock o'))\<rparr>)"

definition auto_lock_obj_t_dtor :: "tid \<Rightarrow> auto_lock_obj_t \<Rightarrow> 'a heap \<Rightarrow> 'a heap outcome" where
  "auto_lock_obj_t_dtor t a h = unique_lock_dtor t (alo_lock a) h"

fun auto_lock_obj_t_index ::
  "('k \<Rightarrow> 'a \<Rightarrow> 'r \<times> 'a) \<Rightarrow> auto_lock_obj_t cv \<Rightarrow> 'k \<Rightarrow> 'a heap \<Rightarrow> ('r \<times> 'a heap) outcome" where
  "auto_lock_obj_t_index subscript (Mutable a) arg h =
     call (Ptr (alo_ptr a)) (Member (subscript arg)) h"
| "auto_lock_obj_t_index subscript (Const a) arg h = Ill_formed"

subsection \<open>safe\_ptr\<close>

text \<open>
  The members are \<^verbatim>\<open>const std::shared_ptr<T> ptr\<close> and
  \<^verbatim>\<open>std::shared_ptr<mutex_t> mtx_ptr\<close>, initialised in this order (prefix
  \<open>sp_\<close>). When the constructor of \<^verbatim>\<open>T\<close> throws, nothing has been created.
\<close>

record safe_ptr =
  sp_ptr :: addr
  sp_mtx_ptr :: addr

definition safe_ptr_ctor ::
  "('args \<Rightarrow> 'e + 'a) \<Rightarrow> 'args \<Rightarrow> 'a heap \<Rightarrow> ('e \<times> 'a heap) + (safe_ptr \<times> 'a heap)" where
  "safe_ptr_ctor T_ctor args h =
     (case T_ctor args of
        Inl e \<Rightarrow> Inl (e, h)
      | Inr v \<Rightarrow>
          (let (a, h1) = make_shared v h; (m, h2) = make_shared_mutex h1
           in Inr (\<lparr>sp_ptr = a, sp_mtx_ptr = m\<rparr>, h2)))"

text \<open>The implicit copy constructor: each \<^verbatim>\<open>shared_ptr\<close> member is copied.\<close>

definition safe_ptr_copy :: "safe_ptr \<Rightarrow> safe_ptr" where
  "safe_ptr_copy s = \<lparr>sp_ptr = sp_ptr s, sp_mtx_ptr = sp_mtx_ptr s\<rparr>"

text \<open>
  \<^verbatim>\<open>auto_lock_t<x_lock_t> operator->()\<close> and
  \<^verbatim>\<open>const auto_lock_t<s_lock_t> operator-> () const\<close>.
\<close>

fun safe_ptr_arrow ::
  "tid \<Rightarrow> safe_ptr cv \<Rightarrow> 'a heap \<Rightarrow> (auto_lock_t cv \<times> 'a heap) outcome" where
  "safe_ptr_arrow t (Mutable s) h =
     and_then (auto_lock_t_ctor x_lock_t t (sp_ptr s) (sp_mtx_ptr s) h)
       (\<lambda>(a, h'). Returns (Mutable a, h'))"
| "safe_ptr_arrow t (Const s) h =
     and_then (auto_lock_t_ctor s_lock_t t (sp_ptr s) (sp_mtx_ptr s) h)
       (\<lambda>(a, h'). Returns (Const a, h'))"

text \<open>
  \<^verbatim>\<open>auto_lock_obj_t<x_lock_t> operator* ()\<close> and
  \<^verbatim>\<open>const auto_lock_obj_t<s_lock_t> operator* () const\<close>.
\<close>

fun safe_ptr_star ::
  "tid \<Rightarrow> safe_ptr cv \<Rightarrow> 'a heap \<Rightarrow> (auto_lock_obj_t cv \<times> 'a heap) outcome" where
  "safe_ptr_star t (Mutable s) h =
     and_then (auto_lock_obj_t_ctor x_lock_t t (sp_ptr s) (sp_mtx_ptr s) h)
       (\<lambda>(a, h'). Returns (Mutable a, h'))"
| "safe_ptr_star t (Const s) h =
     and_then (auto_lock_obj_t_ctor s_lock_t t (sp_ptr s) (sp_mtx_ptr s) h)
       (\<lambda>(a, h'). Returns (Const a, h'))"

text \<open>
  The expressions \<^verbatim>\<open>s->f(...)\<close> and \<^verbatim>\<open>(*s)[arg]\<close>: the accessor is a
  temporary, destroyed at the end of the full expression.
\<close>

definition safe_ptr_call ::
  "tid \<Rightarrow> safe_ptr cv \<Rightarrow> ('a, 'r) member \<Rightarrow> 'a heap \<Rightarrow> ('r \<times> 'a heap) outcome" where
  "safe_ptr_call t s f h =
     and_then (safe_ptr_arrow t s h)
       (\<lambda>(a, h1). and_then (call (auto_lock_t_arrow a) f h1)
          (\<lambda>(r, h2). and_then (auto_lock_t_dtor t (unqual a) h2)
             (\<lambda>h3. Returns (r, h3))))"

definition safe_ptr_index ::
  "('k \<Rightarrow> 'a \<Rightarrow> 'r \<times> 'a) \<Rightarrow> tid \<Rightarrow> safe_ptr cv \<Rightarrow> 'k \<Rightarrow> 'a heap \<Rightarrow> ('r \<times> 'a heap) outcome" where
  "safe_ptr_index subscript t s arg h =
     and_then (safe_ptr_star t s h)
       (\<lambda>(a, h1). and_then (auto_lock_obj_t_index subscript a arg h1)
          (\<lambda>(r, h2). and_then (auto_lock_obj_t_dtor t (unqual a) h2)
             (\<lambda>h3. Returns (r, h3))))"

section \<open>The payloads of main.cpp\<close>

subsection \<open>std::vector<int>\<close>


text \<open>
  \<^verbatim>\<open>std::accumulate(first, last, 0)\<close> adds the elements one by one to an
  \<^verbatim>\<open>int\<close> (32 bits); a sum out of its range is undefined (\<open>None\<close>).
\<close>

fun accumulate_from :: "int list \<Rightarrow> int \<Rightarrow> int option" where
  "accumulate_from [] acc = Some acc"
| "accumulate_from (x # xs) acc =
     (if - 2147483648 \<le> acc + x \<and> acc + x \<le> 2147483647 then accumulate_from xs (acc + x)
      else None)"

definition accumulate :: "(int list, int option) member" where
  "accumulate = Const_member (\<lambda>v. accumulate_from v 0)"

definition push_back :: "int \<Rightarrow> (int list, unit) member" where
  "push_back x = Member (\<lambda>v. ((), v @ [x]))"

subsection \<open>std::map<std::string, std::pair<std::string, int>>\<close>

text \<open>
  The global \<^verbatim>\<open>safe_map_strings_global\<close> wraps a map from strings to pairs, built
  by the default constructor. \<^verbatim>\<open>operator[]\<close> inserts a value-initialised pair for
  a missing key; \<^verbatim>\<open>at\<close> throws \<^verbatim>\<open>std::out_of_range\<close> for a missing key
  (\<open>None\<close>); \<^verbatim>\<open>find\<close> returns \<^verbatim>\<open>end()\<close> for it (\<open>None\<close>). A reference or
  an iterator to an element is written as the element's key.
\<close>

type_synonym smap = "string \<rightharpoonup> string \<times> int"

definition map_ctor :: "unit \<Rightarrow> string + smap" where
  "map_ctor u = Inr Map.empty"

definition map_subscript :: "string \<Rightarrow> smap \<Rightarrow> string \<times> smap" where
  "map_subscript k m = (k, case m k of None \<Rightarrow> m(k \<mapsto> ([], 0)) | Some v \<Rightarrow> m)"

definition map_at :: "string \<Rightarrow> smap \<Rightarrow> string option" where
  "map_at k m = (case m k of None \<Rightarrow> None | Some v \<Rightarrow> Some k)"

definition map_find :: "string \<Rightarrow> smap \<Rightarrow> string option" where
  "map_find k m = (case m k of None \<Rightarrow> None | Some v \<Rightarrow> Some k)"

text \<open>
  \<^verbatim>\<open>safe_ptr<std::map<...>> safe_map_strings_global;\<close> is constructed before
  \<^verbatim>\<open>main\<close> runs, in the empty store.
\<close>

definition safe_map_strings_global :: safe_ptr where
  "safe_map_strings_global = fst (projr (safe_ptr_ctor map_ctor () empty_heap))"

definition global_heap :: "smap heap" where
  "global_heap = snd (projr (safe_ptr_ctor map_ctor () empty_heap))"

section \<open>The three accessor classes as one type\<close>

text \<open>
  An accessor is an object of one of the three nested classes. \<^verbatim>\<open>safe_ptr\<close> uses
  \<^verbatim>\<open>auto_lock_t\<close> and \<^verbatim>\<open>auto_lock_obj_t\<close> with \<^verbatim>\<open>x_lock_t\<close> and with
  \<^verbatim>\<open>s_lock_t\<close>.
\<close>

datatype accessor = Proxy proxy | Auto_lock auto_lock_t | Auto_lock_obj auto_lock_obj_t

datatype accessor_class =
  Proxy_class | Auto_lock_x | Auto_lock_s | Auto_lock_obj_x | Auto_lock_obj_s

fun accessor_lock :: "accessor \<Rightarrow> unique_lock" where
  "accessor_lock (Proxy x) = px_lock x"
| "accessor_lock (Auto_lock x) = al_lock x"
| "accessor_lock (Auto_lock_obj x) = alo_lock x"

fun accessor_ptr :: "accessor \<Rightarrow> addr" where
  "accessor_ptr (Proxy x) = px_p x"
| "accessor_ptr (Auto_lock x) = al_ptr x"
| "accessor_ptr (Auto_lock_obj x) = alo_ptr x"

fun accessor_ctor ::
  "accessor_class \<Rightarrow> tid \<Rightarrow> addr \<Rightarrow> addr \<Rightarrow> 'a heap \<Rightarrow> (accessor \<times> 'a heap) outcome" where
  "accessor_ctor Proxy_class t p a h =
     and_then (proxy_ctor t p a h) (\<lambda>(x, h'). Returns (Proxy x, h'))"
| "accessor_ctor Auto_lock_x t p a h =
     and_then (auto_lock_t_ctor x_lock_t t p a h) (\<lambda>(x, h'). Returns (Auto_lock x, h'))"
| "accessor_ctor Auto_lock_s t p a h =
     and_then (auto_lock_t_ctor s_lock_t t p a h) (\<lambda>(x, h'). Returns (Auto_lock x, h'))"
| "accessor_ctor Auto_lock_obj_x t p a h =
     and_then (auto_lock_obj_t_ctor x_lock_t t p a h) (\<lambda>(x, h'). Returns (Auto_lock_obj x, h'))"
| "accessor_ctor Auto_lock_obj_s t p a h =
     and_then (auto_lock_obj_t_ctor s_lock_t t p a h) (\<lambda>(x, h'). Returns (Auto_lock_obj x, h'))"

text \<open>The move constructor: (the new accessor, the source after the move).\<close>

fun accessor_move :: "accessor \<Rightarrow> accessor \<times> accessor" where
  "accessor_move (Proxy x) = (Proxy (fst (proxy_move x)), Proxy (snd (proxy_move x)))"
| "accessor_move (Auto_lock x) =
     (Auto_lock (fst (auto_lock_t_move x)), Auto_lock (snd (auto_lock_t_move x)))"
| "accessor_move (Auto_lock_obj x) =
     (Auto_lock_obj (fst (auto_lock_obj_t_move x)), Auto_lock_obj (snd (auto_lock_obj_t_move x)))"

fun accessor_dtor :: "tid \<Rightarrow> accessor \<Rightarrow> 'a heap \<Rightarrow> 'a heap outcome" where
  "accessor_dtor t (Proxy x) h = proxy_dtor t x h"
| "accessor_dtor t (Auto_lock x) h = auto_lock_t_dtor t x h"
| "accessor_dtor t (Auto_lock_obj x) h = auto_lock_obj_t_dtor t x h"

subsection \<open>The life of one accessor\<close>

text \<open>
  The state of an accessor is the flag \<^verbatim>\<open>owns\<close> of its member \<^verbatim>\<open>lock\<close>. After
  its construction, what the class definitions allow to happen to an accessor object is:
  a member function (\<^verbatim>\<open>operator->\<close>, \<^verbatim>\<open>operator[]\<close>) is called on it, which
  leaves its members as they are; it is the source of a move construction; it is
  destroyed, which ends its life. No class has an assignment operator, and the member
  \<^verbatim>\<open>lock\<close> is private.
\<close>

datatype lock_state = locked | unlocked

definition state_of :: "accessor \<Rightarrow> lock_state" where
  "state_of x = (if owns (accessor_lock x) then locked else unlocked)"

datatype event = Use | Moved_from | Destroyed

text \<open>
  The state after each event of a life, and the store at its end. Nothing happens to
  an object after its destruction (the behaviour would be undefined).
\<close>

fun life :: "tid \<Rightarrow> event list \<Rightarrow> accessor \<Rightarrow> 'a heap \<Rightarrow> (lock_state list \<times> 'a heap) outcome" where
  "life t [] x h = Returns ([], h)"
| "life t (Use # es) x h =
     and_then (life t es x h) (\<lambda>(ss, h'). Returns (state_of x # ss, h'))"
| "life t (Moved_from # es) x h =
     and_then (life t es (snd (accessor_move x)) h)
       (\<lambda>(ss, h'). Returns (state_of (snd (accessor_move x)) # ss, h'))"
| "life t (Destroyed # es) x h =
     (if es = [] then and_then (accessor_dtor t x h) (\<lambda>h'. Returns ([unlocked], h'))
      else Undefined)"

subsection \<open>Moves in a row, accessors in a row\<close>

text \<open>
  \<open>moves n x\<close>: the accessor \<open>x\<close> is moved into a new one, that one into a
  further one, \<open>n\<close> times; the result is the last accessor and the sources left
  behind, the latest first. \<open>destroy_all\<close> destroys the accessors of a list in
  order.
\<close>

fun moves :: "nat \<Rightarrow> accessor \<Rightarrow> accessor \<times> accessor list" where
  "moves 0 x = (x, [])"
| "moves (Suc n) x =
     (fst (moves n (fst (accessor_move x))),
      snd (moves n (fst (accessor_move x))) @ [snd (accessor_move x)])"

fun destroy_all :: "tid \<Rightarrow> accessor list \<Rightarrow> 'a heap \<Rightarrow> 'a heap outcome" where
  "destroy_all t [] h = Returns h"
| "destroy_all t (x # xs) h = and_then (accessor_dtor t x h) (destroy_all t xs)"

text \<open>
  \<open>nested t p a cs h\<close>: thread \<open>t\<close> constructs one accessor after the other, of
  the classes \<open>cs\<close>, all on the value \<open>p\<close> and the mutex \<open>a\<close>, and keeps them
  all. The result lists them with the latest first, which is the order in which
  objects of one scope are destroyed.
\<close>

fun nested ::
  "tid \<Rightarrow> addr \<Rightarrow> addr \<Rightarrow> accessor_class list \<Rightarrow> 'a heap \<Rightarrow> (accessor list \<times> 'a heap) outcome" where
  "nested t p a [] h = Returns ([], h)"
| "nested t p a (c # cs) h =
     and_then (accessor_ctor c t p a h)
       (\<lambda>(x, h1). and_then (nested t p a cs h1) (\<lambda>(xs, h2). Returns (xs @ [x], h2)))"

text \<open>
  A row of calls \<^verbatim>\<open>e->f(...)\<close>, one full expression each; \<open>access\<close> is the call
  operation of a handle.
\<close>

fun calls ::
  "(('a, 'r) member \<Rightarrow> 'a heap \<Rightarrow> ('r \<times> 'a heap) outcome) \<Rightarrow> ('a, 'r) member list \<Rightarrow> 'a heap \<Rightarrow>
     ('r list \<times> 'a heap) outcome" where
  "calls access [] h = Returns ([], h)"
| "calls access (f # fs) h =
     and_then (access f h)
       (\<lambda>(r, h1). and_then (calls access fs h1) (\<lambda>(rs, h2). Returns (r # rs, h2)))"

section \<open>The pointer a handle's accessor hands out\<close>

text \<open>
  Following \<^verbatim>\<open>operator->\<close> of the handle and then of the accessor it returns: a
  handle that is not const gives \<^verbatim>\<open>T*\<close>, a const handle \<^verbatim>\<open>const T*\<close>.
\<close>

fun ea_pointer :: "execute_around cv \<Rightarrow> pointer" where
  "ea_pointer (Mutable e) = Ptr (ea_p e)"
| "ea_pointer (Const e) = Const_ptr (ea_p e)"

fun sp_pointer :: "safe_ptr cv \<Rightarrow> pointer" where
  "sp_pointer (Mutable s) = Ptr (sp_ptr s)"
| "sp_pointer (Const s) = Const_ptr (sp_ptr s)"


section \<open>func and test\_safe\_ptr: threads on one map\<close>

text \<open>
  \<^verbatim>\<open>test_safe_ptr\<close> starts ten threads, each running \<^verbatim>\<open>func\<close> on a copy of
  \<^verbatim>\<open>safe_map_strings_global\<close>, and joins them. The threads are modelled by
  interleaving: a state holds the store and the local variables of every thread; a
  step is one action of one thread. The actions of a statement of \<^verbatim>\<open>func\<close> are:
  the accessor is constructed (the thread takes the mutex; it cannot take this step
  while another thread owns the mutex), the element is looked up, it is read, it is
  written, and at the end of the full expression the accessor is destroyed. Reading
  and writing the counter are separate steps, so that an increment is only as atomic
  as the lock makes it.
\<close>

subsection \<open>Elements of the map\<close>

text \<open>
  A reference to an element is the address of the map and the key. Reading or
  writing through a reference to an element that is not there is undefined.
\<close>

type_synonym elem_ref = "addr \<times> string"

definition elem_read :: "elem_ref \<Rightarrow> smap heap \<Rightarrow> (string \<times> int) outcome" where
  "elem_read r h =
     (case objs h (fst r) of
        None \<Rightarrow> Undefined
      | Some m \<Rightarrow> (case m (snd r) of None \<Rightarrow> Undefined | Some e \<Rightarrow> Returns e))"

definition elem_update ::
  "elem_ref \<Rightarrow> (string \<times> int \<Rightarrow> string \<times> int) \<Rightarrow> smap heap \<Rightarrow> smap heap outcome" where
  "elem_update r f h =
     (case objs h (fst r) of
        None \<Rightarrow> Undefined
      | Some m \<Rightarrow>
          (case m (snd r) of
             None \<Rightarrow> Undefined
           | Some e \<Rightarrow> Returns (h\<lparr>objs := (objs h)(fst r \<mapsto> m(snd r \<mapsto> f e))\<rparr>)))"

subsection \<open>The program points of func\<close>

text \<open>
  \<^verbatim>\<open>(*safe_map_strings)["apple"].first = "fruit";\<close> and the same for potato
  (\<open>Set_\<close>); the loop test; \<^verbatim>\<open>safe_map_strings->at("apple").second++;\<close> and
  \<^verbatim>\<open>safe_map_strings->find("potato")->second.second++;\<close> (\<open>Inc_\<close>);
  \<^verbatim>\<open>++i\<close>; the copy \<^verbatim>\<open>readonly_safe_map_string\<close>; and the output statement,
  whose four operands each construct an accessor that lives to the end of the
  statement (\<open>Print_\<close>).
\<close>

datatype name = Apple | Potato

fun key_of :: "name \<Rightarrow> string" where
  "key_of Apple = ''apple''"
| "key_of Potato = ''potato''"

fun kind_of :: "name \<Rightarrow> string" where
  "kind_of Apple = ''fruit''"
| "kind_of Potato = ''vegetable''"

datatype operand = Potato_first | Potato_second | Apple_first | Apple_second

fun operand_name :: "operand \<Rightarrow> name" where
  "operand_name Potato_first = Potato"
| "operand_name Potato_second = Potato"
| "operand_name Apple_first = Apple"
| "operand_name Apple_second = Apple"

fun operand_of :: "operand \<Rightarrow> string \<times> int \<Rightarrow> string + int" where
  "operand_of Potato_first e = Inl (fst e)"
| "operand_of Potato_second e = Inr (snd e)"
| "operand_of Apple_first e = Inl (fst e)"
| "operand_of Apple_second e = Inr (snd e)"

datatype pc =
    Set_acquire name | Set_index name | Set_assign name | Set_release name
  | Loop_test
  | Inc_acquire name | Inc_lookup name | Inc_load name | Inc_store name | Inc_release name
  | Loop_incr
  | Copy_handle
  | Print_acquire operand | Print_read operand | Print_release operand
  | Done
  | Terminated

text \<open>What follows the read of an operand, and the destruction of its accessor.\<close>

fun after_read :: "operand \<Rightarrow> pc" where
  "after_read Potato_first = Print_acquire Potato_second"
| "after_read Potato_second = Print_acquire Apple_first"
| "after_read Apple_first = Print_acquire Apple_second"
| "after_read Apple_second = Print_release Apple_second"

fun after_release :: "operand \<Rightarrow> pc" where
  "after_release Apple_second = Print_release Apple_first"
| "after_release Apple_first = Print_release Potato_second"
| "after_release Potato_second = Print_release Potato_first"
| "after_release Potato_first = Done"

subsection \<open>Threads and states\<close>

text \<open>
  The locals of a thread: where it is; \<^verbatim>\<open>i\<close>; the parameter
  \<^verbatim>\<open>safe_map_strings\<close>; \<^verbatim>\<open>readonly_safe_map_string\<close>, once it is declared; the
  temporary accessors of the statement at hand (the latest first); the reference to
  the element at hand; the value that \<^verbatim>\<open>second++\<close> has read; and what the thread
  has written to \<^verbatim>\<open>std::cout\<close> (the values only).
\<close>

record thread =
  at_pc :: pc
  var_i :: nat
  arg_safe_map_strings :: safe_ptr
  var_readonly_safe_map_string :: "safe_ptr option"
  tmp_obj :: "auto_lock_obj_t cv option"
  tmp_locks :: "auto_lock_t cv list"
  tmp_ref :: "elem_ref option"
  tmp_val :: int
  printed :: "(string + int) list"

record state =
  store :: "smap heap"
  threads :: "tid \<Rightarrow> thread"

definition set_thread :: "tid \<Rightarrow> thread \<Rightarrow> smap heap \<Rightarrow> state \<Rightarrow> state" where
  "set_thread t th h s = s\<lparr>store := h, threads := (threads s)(t := th)\<rparr>"

text \<open>
  One step of thread \<open>t\<close> at a program point; \<open>K\<close> is the bound of the loop.
  \<^verbatim>\<open>at\<close> on a missing key throws, and the exception leaves \<^verbatim>\<open>func\<close>;
  dereferencing the \<^verbatim>\<open>end()\<close> that \<^verbatim>\<open>find\<close> returns for a missing key is
  undefined, and so is \<^verbatim>\<open>second++\<close> on the largest \<^verbatim>\<open>int\<close> (32 bits).
\<close>

fun step_at :: "nat \<Rightarrow> tid \<Rightarrow> pc \<Rightarrow> state \<Rightarrow> state outcome" where
  "step_at K t (Set_acquire n) s =
     (let th = threads s t in
      and_then (safe_ptr_star t (Mutable (arg_safe_map_strings th)) (store s))
        (\<lambda>(x, h). Returns (set_thread t (th\<lparr>at_pc := Set_index n, tmp_obj := Some x\<rparr>) h s)))"
| "step_at K t (Set_index n) s =
     (let th = threads s t in
      case tmp_obj th of
        None \<Rightarrow> Undefined
      | Some x \<Rightarrow>
          and_then (auto_lock_obj_t_index map_subscript x (key_of n) (store s))
            (\<lambda>(r, h). Returns (set_thread t
               (th\<lparr>at_pc := Set_assign n, tmp_ref := Some (alo_ptr (unqual x), r)\<rparr>) h s)))"
| "step_at K t (Set_assign n) s =
     (let th = threads s t in
      case tmp_ref th of
        None \<Rightarrow> Undefined
      | Some r \<Rightarrow>
          and_then (elem_update r (\<lambda>e. (kind_of n, snd e)) (store s))
            (\<lambda>h. Returns (set_thread t (th\<lparr>at_pc := Set_release n\<rparr>) h s)))"
| "step_at K t (Set_release n) s =
     (let th = threads s t in
      case tmp_obj th of
        None \<Rightarrow> Undefined
      | Some x \<Rightarrow>
          and_then (auto_lock_obj_t_dtor t (unqual x) (store s))
            (\<lambda>h. Returns (set_thread t
               (th\<lparr>at_pc := (case n of Apple \<Rightarrow> Set_acquire Potato | Potato \<Rightarrow> Loop_test),
                   tmp_obj := None, tmp_ref := None\<rparr>) h s)))"
| "step_at K t Loop_test s =
     (let th = threads s t in
      Returns (set_thread t
        (th\<lparr>at_pc := (if var_i th < K then Inc_acquire Apple else Copy_handle)\<rparr>) (store s) s))"
| "step_at K t (Inc_acquire n) s =
     (let th = threads s t in
      and_then (safe_ptr_arrow t (Mutable (arg_safe_map_strings th)) (store s))
        (\<lambda>(x, h). Returns (set_thread t
           (th\<lparr>at_pc := Inc_lookup n, tmp_locks := x # tmp_locks th\<rparr>) h s)))"
| "step_at K t (Inc_lookup n) s =
     (let th = threads s t in
      case tmp_locks th of
        [] \<Rightarrow> Undefined
      | x # xs \<Rightarrow>
          and_then
            (call (auto_lock_t_arrow x)
               (Member (\<lambda>m. ((case n of Apple \<Rightarrow> map_at | Potato \<Rightarrow> map_find) (key_of n) m, m)))
               (store s))
            (\<lambda>(r, h).
               case r of
                 None \<Rightarrow>
                   (case n of
                      Apple \<Rightarrow> Returns (set_thread t (th\<lparr>at_pc := Terminated\<rparr>) h s)
                    | Potato \<Rightarrow> Undefined)
               | Some k \<Rightarrow> Returns (set_thread t
                   (th\<lparr>at_pc := Inc_load n, tmp_ref := Some (al_ptr (unqual x), k)\<rparr>) h s)))"
| "step_at K t (Inc_load n) s =
     (let th = threads s t in
      case tmp_ref th of
        None \<Rightarrow> Undefined
      | Some r \<Rightarrow>
          and_then (elem_read r (store s))
            (\<lambda>e. Returns (set_thread t (th\<lparr>at_pc := Inc_store n, tmp_val := snd e\<rparr>) (store s) s)))"
| "step_at K t (Inc_store n) s =
     (let th = threads s t in
      case tmp_ref th of
        None \<Rightarrow> Undefined
      | Some r \<Rightarrow>
          if tmp_val th = 2147483647 then Undefined
          else and_then (elem_update r (\<lambda>e. (fst e, tmp_val th + 1)) (store s))
            (\<lambda>h. Returns (set_thread t (th\<lparr>at_pc := Inc_release n\<rparr>) h s)))"
| "step_at K t (Inc_release n) s =
     (let th = threads s t in
      case tmp_locks th of
        [] \<Rightarrow> Undefined
      | x # xs \<Rightarrow>
          and_then (auto_lock_t_dtor t (unqual x) (store s))
            (\<lambda>h. Returns (set_thread t
               (th\<lparr>at_pc := (case n of Apple \<Rightarrow> Inc_acquire Potato | Potato \<Rightarrow> Loop_incr),
                   tmp_locks := xs, tmp_ref := None\<rparr>) h s)))"
| "step_at K t Loop_incr s =
     (let th = threads s t in
      Returns (set_thread t (th\<lparr>at_pc := Loop_test, var_i := Suc (var_i th)\<rparr>) (store s) s))"
| "step_at K t Copy_handle s =
     (let th = threads s t in
      Returns (set_thread t
        (th\<lparr>at_pc := Print_acquire Potato_first,
            var_readonly_safe_map_string := Some (safe_ptr_copy (arg_safe_map_strings th))\<rparr>)
        (store s) s))"
| "step_at K t (Print_acquire x') s =
     (let th = threads s t in
      case var_readonly_safe_map_string th of
        None \<Rightarrow> Undefined
      | Some ro \<Rightarrow>
          and_then (safe_ptr_arrow t (Const ro) (store s))
            (\<lambda>(x, h). Returns (set_thread t
               (th\<lparr>at_pc := Print_read x', tmp_locks := x # tmp_locks th\<rparr>) h s)))"
| "step_at K t (Print_read x') s =
     (let th = threads s t in
      case tmp_locks th of
        [] \<Rightarrow> Undefined
      | x # xs \<Rightarrow>
          and_then
            (call (auto_lock_t_arrow x) (Const_member (map_at (key_of (operand_name x'))))
               (store s))
            (\<lambda>(r, h).
               case r of
                 None \<Rightarrow> Returns (set_thread t (th\<lparr>at_pc := Terminated\<rparr>) h s)
               | Some k \<Rightarrow>
                   and_then (elem_read (al_ptr (unqual x), k) h)
                     (\<lambda>e. Returns (set_thread t
                        (th\<lparr>at_pc := after_read x',
                            printed := printed th @ [operand_of x' e]\<rparr>) h s))))"
| "step_at K t (Print_release x') s =
     (let th = threads s t in
      case tmp_locks th of
        [] \<Rightarrow> Undefined
      | x # xs \<Rightarrow>
          and_then (auto_lock_t_dtor t (unqual x) (store s))
            (\<lambda>h. Returns (set_thread t
               (th\<lparr>at_pc := after_release x', tmp_locks := xs\<rparr>) h s)))"
| "step_at K t Done s = Returns s"
| "step_at K t Terminated s = Returns s"

definition func_step :: "nat \<Rightarrow> tid \<Rightarrow> state \<Rightarrow> state outcome" where
  "func_step K t s = step_at K t (at_pc (threads s t)) s"

text \<open>A thread that has returned from \<^verbatim>\<open>func\<close>, or was terminated, takes no step.\<close>

definition runnable :: "thread \<Rightarrow> bool" where
  "runnable th \<longleftrightarrow> at_pc th \<noteq> Done \<and> at_pc th \<noteq> Terminated"

text \<open>
  A schedule names the thread of each step. The run of a schedule returns the state
  it leads to; it blocks when the schedule names a thread that waits for the mutex,
  and is undefined, or throws, when a step is or does.
\<close>

fun run :: "nat \<Rightarrow> tid list \<Rightarrow> state \<Rightarrow> state outcome" where
  "run K [] s = Returns s"
| "run K (t # ts) s =
     (if runnable (threads s t) then and_then (func_step K t s) (run K ts) else Blocks)"

text \<open>
  The state in which \<^verbatim>\<open>test_safe_ptr\<close> has started its threads: the store holds
  the global map, and every thread is at the start of \<^verbatim>\<open>func\<close> with its copy of
  the global handle.
\<close>

definition start_thread :: thread where
  "start_thread =
     \<lparr>at_pc = Set_acquire Apple, var_i = 0,
      arg_safe_map_strings = safe_ptr_copy safe_map_strings_global,
      var_readonly_safe_map_string = None, tmp_obj = None, tmp_locks = [], tmp_ref = None,
      tmp_val = 0, printed = []\<rparr>"

definition start_state :: state where
  "start_state = \<lparr>store = global_heap, threads = (\<lambda>t. start_thread)\<rparr>"

text \<open>All \<open>N\<close> threads have returned: the joins of \<^verbatim>\<open>test_safe_ptr\<close> return.\<close>

definition all_done :: "nat \<Rightarrow> state \<Rightarrow> bool" where
  "all_done N s \<longleftrightarrow> (\<forall>t < N. at_pc (threads s t) = Done)"

text \<open>The thread holds an accessor, and with it the mutex.\<close>

fun holds :: "pc \<Rightarrow> nat" where
  "holds (Set_index n) = Suc 0"
| "holds (Set_assign n) = Suc 0"
| "holds (Set_release n) = Suc 0"
| "holds (Inc_lookup n) = Suc 0"
| "holds (Inc_load n) = Suc 0"
| "holds (Inc_store n) = Suc 0"
| "holds (Inc_release n) = Suc 0"
| "holds (Print_acquire Potato_first) = 0"
| "holds (Print_acquire Potato_second) = Suc 0"
| "holds (Print_acquire Apple_first) = Suc (Suc 0)"
| "holds (Print_acquire Apple_second) = Suc (Suc (Suc 0))"
| "holds (Print_read Potato_first) = Suc 0"
| "holds (Print_read Potato_second) = Suc (Suc 0)"
| "holds (Print_read Apple_first) = Suc (Suc (Suc 0))"
| "holds (Print_read Apple_second) = Suc (Suc (Suc (Suc 0)))"
| "holds (Print_release Potato_first) = Suc 0"
| "holds (Print_release Potato_second) = Suc (Suc 0)"
| "holds (Print_release Apple_first) = Suc (Suc (Suc 0))"
| "holds (Print_release Apple_second) = Suc (Suc (Suc (Suc 0)))"
| "holds p = 0"

text \<open>
  \<^verbatim>\<open>test_safe_ptr\<close> has ten threads, the loop of \<^verbatim>\<open>func\<close> ten thousand rounds.
\<close>

definition vec_thread_size :: nat where
  "vec_thread_size = 10"

definition loop_bound :: nat where
  "loop_bound = 10000"


section \<open>What holds in every state the threads can reach\<close>

text \<open>The one map and the one mutex of the store.\<close>

definition the_map :: "state \<Rightarrow> smap" where
  "the_map s = (case objs (store s) 0 of None \<Rightarrow> Map.empty | Some m \<Rightarrow> m)"

definition the_mutex :: "state \<Rightarrow> recursive_mutex" where
  "the_mutex s = (case mtxs (store s) 1 of None \<Rightarrow> Free | Some x \<Rightarrow> x)"

definition mk_store :: "smap \<Rightarrow> recursive_mutex \<Rightarrow> smap heap" where
  "mk_store m x = \<lparr>objs = [0 \<mapsto> m], mtxs = [1 \<mapsto> x], next_addr = 2\<rparr>"

definition store_ok :: "state \<Rightarrow> bool" where
  "store_ok s \<longleftrightarrow> store s = mk_store (the_map s) (the_mutex s)"

text \<open>The counter of a key; a missing key counts as 0.\<close>

definition counter :: "smap \<Rightarrow> name \<Rightarrow> int" where
  "counter m n = (case m (key_of n) of None \<Rightarrow> 0 | Some e \<Rightarrow> snd e)"

text \<open>
  How many increments of a counter a thread has completed, from where it is and its
  \<^verbatim>\<open>i\<close>.
\<close>

fun incs :: "name \<Rightarrow> pc \<Rightarrow> nat \<Rightarrow> nat" where
  "incs Apple (Inc_release Apple) i = Suc i"
| "incs Apple (Inc_acquire Potato) i = Suc i"
| "incs Apple (Inc_lookup Potato) i = Suc i"
| "incs Apple (Inc_load Potato) i = Suc i"
| "incs Apple (Inc_store Potato) i = Suc i"
| "incs Apple (Inc_release Potato) i = Suc i"
| "incs Apple Loop_incr i = Suc i"
| "incs Potato (Inc_release Potato) i = Suc i"
| "incs Potato Loop_incr i = Suc i"
| "incs n p i = i"

text \<open>The thread has passed \<^verbatim>\<open>operator[]\<close> for the key; it has passed the assignment.\<close>

fun inserted :: "name \<Rightarrow> pc \<Rightarrow> bool" where
  "inserted n (Set_acquire Apple) = False"
| "inserted n (Set_index Apple) = False"
| "inserted Potato (Set_assign Apple) = False"
| "inserted Potato (Set_release Apple) = False"
| "inserted Potato (Set_acquire Potato) = False"
| "inserted Potato (Set_index Potato) = False"
| "inserted n p = True"

fun assigned :: "name \<Rightarrow> pc \<Rightarrow> bool" where
  "assigned n (Set_acquire Apple) = False"
| "assigned n (Set_index Apple) = False"
| "assigned n (Set_assign Apple) = False"
| "assigned Potato (Set_release Apple) = False"
| "assigned Potato (Set_acquire Potato) = False"
| "assigned Potato (Set_index Potato) = False"
| "assigned Potato (Set_assign Potato) = False"
| "assigned n p = True"

text \<open>The accessors a thread holds are on the global map and its mutex.\<close>

definition the_obj :: auto_lock_obj_t where
  "the_obj = \<lparr>alo_ptr = 0, alo_lock = \<lparr>pm = Some 1, owns = True\<rparr>\<rparr>"

definition the_lock :: auto_lock_t where
  "the_lock = \<lparr>al_ptr = 0, al_lock = \<lparr>pm = Some 1, owns = True\<rparr>\<rparr>"

fun locals_at :: "nat \<Rightarrow> pc \<Rightarrow> thread \<Rightarrow> bool" where
  "locals_at K (Set_acquire n) th \<longleftrightarrow> var_i th = 0 \<and> tmp_locks th = []"
| "locals_at K (Set_index n) th \<longleftrightarrow>
     var_i th = 0 \<and> tmp_locks th = [] \<and> tmp_obj th = Some (Mutable the_obj)"
| "locals_at K (Set_assign n) th \<longleftrightarrow>
     var_i th = 0 \<and> tmp_locks th = [] \<and> tmp_obj th = Some (Mutable the_obj) \<and>
     tmp_ref th = Some (0, key_of n)"
| "locals_at K (Set_release n) th \<longleftrightarrow>
     var_i th = 0 \<and> tmp_locks th = [] \<and> tmp_obj th = Some (Mutable the_obj)"
| "locals_at K Loop_test th \<longleftrightarrow> var_i th \<le> K \<and> tmp_locks th = []"
| "locals_at K (Inc_acquire n) th \<longleftrightarrow> var_i th < K \<and> tmp_locks th = []"
| "locals_at K (Inc_lookup n) th \<longleftrightarrow> var_i th < K \<and> tmp_locks th = [Mutable the_lock]"
| "locals_at K (Inc_load n) th \<longleftrightarrow>
     var_i th < K \<and> tmp_locks th = [Mutable the_lock] \<and> tmp_ref th = Some (0, key_of n)"
| "locals_at K (Inc_store n) th \<longleftrightarrow>
     var_i th < K \<and> tmp_locks th = [Mutable the_lock] \<and> tmp_ref th = Some (0, key_of n)"
| "locals_at K (Inc_release n) th \<longleftrightarrow> var_i th < K \<and> tmp_locks th = [Mutable the_lock]"
| "locals_at K Loop_incr th \<longleftrightarrow> var_i th < K \<and> tmp_locks th = []"
| "locals_at K Copy_handle th \<longleftrightarrow> var_i th = K \<and> tmp_locks th = []"
| "locals_at K (Print_acquire x) th \<longleftrightarrow>
     var_i th = K \<and> tmp_locks th = replicate (holds (Print_acquire x)) (Const the_lock) \<and>
     var_readonly_safe_map_string th = Some safe_map_strings_global"
| "locals_at K (Print_read x) th \<longleftrightarrow>
     var_i th = K \<and> tmp_locks th = replicate (holds (Print_read x)) (Const the_lock) \<and>
     var_readonly_safe_map_string th = Some safe_map_strings_global"
| "locals_at K (Print_release x) th \<longleftrightarrow>
     var_i th = K \<and> tmp_locks th = replicate (holds (Print_release x)) (Const the_lock) \<and>
     var_readonly_safe_map_string th = Some safe_map_strings_global"
| "locals_at K Done th \<longleftrightarrow> var_i th = K \<and> tmp_locks th = []"
| "locals_at K Terminated th \<longleftrightarrow> False"

definition local_ok :: "nat \<Rightarrow> thread \<Rightarrow> bool" where
  "local_ok K th \<longleftrightarrow>
     arg_safe_map_strings th = safe_map_strings_global \<and> locals_at K (at_pc th) th"

text \<open>The mutex is owned by the one thread that holds accessors, as often as it holds.\<close>

definition mutex_ok :: "nat \<Rightarrow> state \<Rightarrow> bool" where
  "mutex_ok N s \<longleftrightarrow>
     (case the_mutex s of
        Free \<Rightarrow> \<forall>t < N. holds (at_pc (threads s t)) = 0
      | Held t n \<Rightarrow>
          t < N \<and> holds (at_pc (threads s t)) = Suc n \<and>
          (\<forall>u < N. u \<noteq> t \<longrightarrow> holds (at_pc (threads s u)) = 0))"

text \<open>
  Each counter is the number of increments the threads have completed; a key is in
  the map, with its kind, once a thread has passed the statement that sets it; a
  thread about to write has read the counter as it is now; the map has no other key.
\<close>

definition total :: "nat \<Rightarrow> state \<Rightarrow> name \<Rightarrow> nat" where
  "total N s n = (\<Sum>t < N. incs n (at_pc (threads s t)) (var_i (threads s t)))"

definition data_ok :: "nat \<Rightarrow> state \<Rightarrow> bool" where
  "data_ok N s \<longleftrightarrow>
     (\<forall>n. counter (the_map s) n = int (total N s n) \<and>
          (\<forall>t < N. inserted n (at_pc (threads s t)) \<longrightarrow> the_map s (key_of n) \<noteq> None) \<and>
          (\<forall>t < N. assigned n (at_pc (threads s t)) \<longrightarrow>
              (\<exists>c. the_map s (key_of n) = Some (kind_of n, c))) \<and>
          (\<forall>t < N. at_pc (threads s t) = Inc_store n \<longrightarrow>
              tmp_val (threads s t) = counter (the_map s) n)) \<and>
     dom (the_map s) \<subseteq> {''apple'', ''potato''}"

definition inv :: "nat \<Rightarrow> nat \<Rightarrow> state \<Rightarrow> bool" where
  "inv K N s \<longleftrightarrow>
     store_ok s \<and> (\<forall>t < N. local_ok K (threads s t)) \<and> mutex_ok N s \<and> data_ok N s"

text \<open>The steps a thread has left, from where it is and its \<^verbatim>\<open>i\<close>.\<close>

fun steps_left :: "nat \<Rightarrow> pc \<Rightarrow> nat \<Rightarrow> nat" where
  "steps_left K (Set_acquire Apple) i = 12 * K + 22"
| "steps_left K (Set_index Apple) i = 12 * K + 21"
| "steps_left K (Set_assign Apple) i = 12 * K + 20"
| "steps_left K (Set_release Apple) i = 12 * K + 19"
| "steps_left K (Set_acquire Potato) i = 12 * K + 18"
| "steps_left K (Set_index Potato) i = 12 * K + 17"
| "steps_left K (Set_assign Potato) i = 12 * K + 16"
| "steps_left K (Set_release Potato) i = 12 * K + 15"
| "steps_left K Loop_test i = 12 * (K - i) + 14"
| "steps_left K (Inc_acquire Apple) i = 12 * (K - i) + 13"
| "steps_left K (Inc_lookup Apple) i = 12 * (K - i) + 12"
| "steps_left K (Inc_load Apple) i = 12 * (K - i) + 11"
| "steps_left K (Inc_store Apple) i = 12 * (K - i) + 10"
| "steps_left K (Inc_release Apple) i = 12 * (K - i) + 9"
| "steps_left K (Inc_acquire Potato) i = 12 * (K - i) + 8"
| "steps_left K (Inc_lookup Potato) i = 12 * (K - i) + 7"
| "steps_left K (Inc_load Potato) i = 12 * (K - i) + 6"
| "steps_left K (Inc_store Potato) i = 12 * (K - i) + 5"
| "steps_left K (Inc_release Potato) i = 12 * (K - i) + 4"
| "steps_left K Loop_incr i = 12 * (K - i) + 3"
| "steps_left K Copy_handle i = 13"
| "steps_left K (Print_acquire Potato_first) i = 12"
| "steps_left K (Print_read Potato_first) i = 11"
| "steps_left K (Print_acquire Potato_second) i = 10"
| "steps_left K (Print_read Potato_second) i = 9"
| "steps_left K (Print_acquire Apple_first) i = 8"
| "steps_left K (Print_read Apple_first) i = 7"
| "steps_left K (Print_acquire Apple_second) i = 6"
| "steps_left K (Print_read Apple_second) i = 5"
| "steps_left K (Print_release Apple_second) i = 4"
| "steps_left K (Print_release Apple_first) i = 3"
| "steps_left K (Print_release Potato_second) i = 2"
| "steps_left K (Print_release Potato_first) i = 1"
| "steps_left K Done i = 0"
| "steps_left K Terminated i = 0"

definition work_left :: "nat \<Rightarrow> nat \<Rightarrow> state \<Rightarrow> nat" where
  "work_left K N s = (\<Sum>t < N. steps_left K (at_pc (threads s t)) (var_i (threads s t)))"


text \<open>
  What a thread has written to \<^verbatim>\<open>std::cout\<close>, from where it is. While it holds
  the accessors of its output statement, the counters it has written are those of the
  map as it is; once it has returned, they lie between \<open>K\<close>, its own increments,
  and \<open>N * K\<close>.
\<close>

fun output_ok :: "int \<Rightarrow> int \<Rightarrow> (string + int) list \<Rightarrow> bool" where
  "output_ok lo hi [Inl k, Inr p, Inl k', Inr a] \<longleftrightarrow>
     k = ''vegetable'' \<and> k' = ''fruit'' \<and> lo \<le> p \<and> p \<le> hi \<and> lo \<le> a \<and> a \<le> hi"
| "output_ok lo hi ps \<longleftrightarrow> False"

fun prints_at :: "nat \<Rightarrow> nat \<Rightarrow> pc \<Rightarrow> smap \<Rightarrow> (string + int) list \<Rightarrow> bool" where
  "prints_at K N (Print_acquire Potato_second) m ps \<longleftrightarrow> ps = [Inl ''vegetable'']"
| "prints_at K N (Print_read Potato_second) m ps \<longleftrightarrow> ps = [Inl ''vegetable'']"
| "prints_at K N (Print_acquire Apple_first) m ps \<longleftrightarrow>
     ps = [Inl ''vegetable'', Inr (counter m Potato)]"
| "prints_at K N (Print_read Apple_first) m ps \<longleftrightarrow>
     ps = [Inl ''vegetable'', Inr (counter m Potato)]"
| "prints_at K N (Print_acquire Apple_second) m ps \<longleftrightarrow>
     ps = [Inl ''vegetable'', Inr (counter m Potato), Inl ''fruit'']"
| "prints_at K N (Print_read Apple_second) m ps \<longleftrightarrow>
     ps = [Inl ''vegetable'', Inr (counter m Potato), Inl ''fruit'']"
| "prints_at K N (Print_release x) m ps \<longleftrightarrow>
     ps = [Inl ''vegetable'', Inr (counter m Potato), Inl ''fruit'', Inr (counter m Apple)]"
| "prints_at K N Done m ps \<longleftrightarrow> output_ok (int K) (int (N * K)) ps"
| "prints_at K N p m ps \<longleftrightarrow> ps = []"

definition prints_ok :: "nat \<Rightarrow> nat \<Rightarrow> state \<Rightarrow> bool" where
  "prints_ok K N s \<longleftrightarrow>
     (\<forall>t < N. prints_at K N (at_pc (threads s t)) (the_map s) (printed (threads s t)))"

section \<open>Basic facts about the primitives\<close>

lemma and_then_Returns_iff:
  "and_then x f = Returns y \<longleftrightarrow> (\<exists>z. x = Returns z \<and> f z = Returns y)"
  by (cases x) auto

lemma mutex_lock_unlock: "mutex_lock t m = Returns m' \<Longrightarrow> mutex_unlock t m' = Returns m"
  by (cases m) (auto split: if_splits)

lemma mutex_lock_Returns_iff:
  "mutex_lock t m = Returns m' \<longleftrightarrow>
     (owner m = None \<or> owner m = Some t) \<and> depth m < max_level \<and> m' = Held t (depth m)"
  by (cases m) (auto simp: max_level_def)

lemma mutex_lock_Throws_iff:
  "mutex_lock t m = Throws \<longleftrightarrow> owner m = Some t \<and> max_level \<le> depth m"
  by (cases m) auto

lemma mutex_lock_Blocks_iff:
  "mutex_lock t m = Blocks \<longleftrightarrow> (\<exists>u. owner m = Some u \<and> u \<noteq> t)"
  by (cases m) auto

lemma mutex_lock_other_Blocks:
  "mutex_lock t m = Returns m' \<Longrightarrow> u \<noteq> t \<Longrightarrow> mutex_lock u m' = Blocks"
  by (cases m) (auto split: if_splits)

lemma mutex_lock_again:
  "mutex_lock t m = Returns m' \<Longrightarrow> Suc (depth m) < max_level \<Longrightarrow>
     mutex_lock t m' = Returns (Held t (Suc (depth m)))"
  by (cases m) (auto split: if_splits)


lemma heap_ok_fresh:
  "heap_ok h \<Longrightarrow> objs h (next_addr h) = None \<and> mtxs h (next_addr h) = None"
  by (simp add: heap_ok_def)

lemma heap_ok_fresh_Suc:
  "heap_ok h \<Longrightarrow> objs h (Suc (next_addr h)) = None \<and> mtxs h (Suc (next_addr h)) = None"
  by (simp add: heap_ok_def)

lemma heap_update_order: "h\<lparr>mtxs := M\<rparr>\<lparr>objs := O'\<rparr> = h\<lparr>objs := O'\<rparr>\<lparr>mtxs := M\<rparr>"
  by simp

lemma unique_lock_ctor_locked:
  assumes "mtxs h a = Some m" and "mutex_lock t m = Returns m'"
  shows "unique_lock_ctor t a h =
           Returns (\<lparr>pm = Some a, owns = True\<rparr>, h\<lparr>mtxs := (mtxs h)(a \<mapsto> m')\<rparr>)"
  using assms by (simp add: unique_lock_ctor_def)

lemma unique_lock_ctor_blocked:
  assumes "mtxs h a = Some m" and "mutex_lock t m = Blocks"
  shows "unique_lock_ctor t a h = Blocks"
  using assms by (simp add: unique_lock_ctor_def)

lemma unique_lock_ctor_Returns_iff:
  "unique_lock_ctor t a h = Returns (l, h') \<longleftrightarrow>
     (\<exists>m m'. mtxs h a = Some m \<and> mutex_lock t m = Returns m' \<and>
        l = \<lparr>pm = Some a, owns = True\<rparr> \<and> h' = h\<lparr>mtxs := (mtxs h)(a \<mapsto> m')\<rparr>)"
  by (auto simp: unique_lock_ctor_def and_then_Returns_iff split: option.splits)

lemma unique_lock_dtor_after_lock:
  assumes "mtxs h a = Some m" and "mutex_lock t m = Returns m'"
    and "h'\<lparr>mtxs := mtxs h\<rparr> = h'"
  shows "unique_lock_dtor t \<lparr>pm = Some a, owns = True\<rparr> (h'\<lparr>mtxs := (mtxs h)(a \<mapsto> m')\<rparr>) =
           Returns h'"
proof -
  have "((mtxs h)(a \<mapsto> m'))(a \<mapsto> m) = mtxs h"
    using assms(1) by (simp add: map_upd_triv)
  then show ?thesis
    using assms by (simp add: unique_lock_dtor_def mutex_lock_unlock)
qed

lemma unique_lock_dtor_not_owning: "\<not> owns u \<Longrightarrow> unique_lock_dtor t u h = Returns h"
  by (simp add: unique_lock_dtor_def)

lemma call_mtxs_update:
  "call p f (h\<lparr>mtxs := M\<rparr>) =
     and_then (call p f h) (\<lambda>(r, h'). Returns (r, h'\<lparr>mtxs := M\<rparr>))"
  by (cases "(p, f, h)" rule: call.cases) (auto split: option.splits)

lemma call_Returns_mtxs: "call p f h = Returns (r, h') \<Longrightarrow> h'\<lparr>mtxs := mtxs h\<rparr> = h'"
  by (cases "(p, f, h)" rule: call.cases) (auto split: option.splits)

lemma call_Const_ptr_Returns: "call (Const_ptr a) f h = Returns (r, h') \<Longrightarrow> h' = h"
  by (cases f) (auto split: option.splits)

lemma call_Const_member_Returns: "call p (Const_member f) h = Returns (r, h') \<Longrightarrow> h' = h"
  by (cases p) (auto split: option.splits)

section \<open>A call through a handle is the call itself, bracketed by the lock\<close>

text \<open>
  When the calling thread can take the mutex, \<^verbatim>\<open>e->f(...)\<close> does to the store what
  \<^verbatim>\<open>f\<close> does through the pointer the accessor hands out, and leaves the mutex as it
  was; when another thread owns the mutex, the call blocks.
\<close>

lemma bracket_call:
  assumes "mtxs h a = Some m" and "mutex_lock t m = Returns m'"
  shows "and_then (call p f (h\<lparr>mtxs := (mtxs h)(a \<mapsto> m')\<rparr>))
           (\<lambda>(r, h2). and_then (unique_lock_dtor t \<lparr>pm = Some a, owns = True\<rparr> h2)
              (\<lambda>h3. Returns (r, h3))) = call p f h"
proof (cases "call p f h")
  case (Returns x)
  obtain r h' where x: "x = (r, h')" by (cases x)
  have "h'\<lparr>mtxs := mtxs h\<rparr> = h'" using Returns x by (simp add: call_Returns_mtxs)
  then show ?thesis
    using assms Returns x by (simp add: call_mtxs_update unique_lock_dtor_after_lock)
qed (simp_all add: call_mtxs_update)

lemma execute_around_call_acquired:
  assumes "mtxs h (ea_mtx (unqual e)) = Some m" and "mutex_lock t m = Returns m'"
  shows "execute_around_call t e f h = call (ea_pointer e) f h"
  using assms bracket_call [OF assms, of "ea_pointer e" f]
  by (cases e)
     (simp_all add: execute_around_call_def proxy_ctor_def unique_lock_ctor_def proxy_dtor_def)

lemma execute_around_call_blocked:
  assumes "mtxs h (ea_mtx (unqual e)) = Some m" and "mutex_lock t m = Blocks"
  shows "execute_around_call t e f h = Blocks"
  using assms
  by (cases e) (simp_all add: execute_around_call_def proxy_ctor_def unique_lock_ctor_def)

lemma safe_ptr_call_acquired:
  assumes "mtxs h (sp_mtx_ptr (unqual s)) = Some m" and "mutex_lock t m = Returns m'"
  shows "safe_ptr_call t s f h = call (sp_pointer s) f h"
  using assms bracket_call [OF assms, of "sp_pointer s" f]
  by (cases s)
     (simp_all add: safe_ptr_call_def auto_lock_t_ctor_def x_lock_t_def s_lock_t_def
        unique_lock_ctor_def auto_lock_t_dtor_def)

lemma safe_ptr_call_blocked:
  assumes "mtxs h (sp_mtx_ptr (unqual s)) = Some m" and "mutex_lock t m = Blocks"
  shows "safe_ptr_call t s f h = Blocks"
  using assms
  by (cases s)
     (simp_all add: safe_ptr_call_def auto_lock_t_ctor_def x_lock_t_def s_lock_t_def
        unique_lock_ctor_def)

lemma safe_ptr_index_acquired:
  assumes "mtxs h (sp_mtx_ptr s) = Some m" and "mutex_lock t m = Returns m'"
  shows "safe_ptr_index subscript t (Mutable s) k h = call (Ptr (sp_ptr s)) (Member (subscript k)) h"
  using assms bracket_call [OF assms, of "Ptr (sp_ptr s)" "Member (subscript k)"]
  by (simp add: safe_ptr_index_def auto_lock_obj_t_ctor_def x_lock_t_def
        unique_lock_ctor_def auto_lock_obj_t_dtor_def)


section \<open>Facts about the accessors\<close>

lemma accessor_ctor_Returns_iff:
  "accessor_ctor cls t p a h = Returns (x, h1) \<longleftrightarrow>
     (\<exists>m m'. mtxs h a = Some m \<and> mutex_lock t m = Returns m' \<and>
        h1 = h\<lparr>mtxs := (mtxs h)(a \<mapsto> m')\<rparr> \<and>
        x = (case cls of
               Proxy_class \<Rightarrow> Proxy \<lparr>px_lock = \<lparr>pm = Some a, owns = True\<rparr>, px_p = p\<rparr>
             | Auto_lock_x \<Rightarrow> Auto_lock \<lparr>al_ptr = p, al_lock = \<lparr>pm = Some a, owns = True\<rparr>\<rparr>
             | Auto_lock_s \<Rightarrow> Auto_lock \<lparr>al_ptr = p, al_lock = \<lparr>pm = Some a, owns = True\<rparr>\<rparr>
             | Auto_lock_obj_x \<Rightarrow>
                 Auto_lock_obj \<lparr>alo_ptr = p, alo_lock = \<lparr>pm = Some a, owns = True\<rparr>\<rparr>
             | Auto_lock_obj_s \<Rightarrow>
                 Auto_lock_obj \<lparr>alo_ptr = p, alo_lock = \<lparr>pm = Some a, owns = True\<rparr>\<rparr>))"
  by (cases cls)
     (auto simp: and_then_Returns_iff proxy_ctor_def auto_lock_t_ctor_def
        auto_lock_obj_t_ctor_def x_lock_t_def s_lock_t_def unique_lock_ctor_Returns_iff)

lemma accessor_ctor_lock:
  assumes "accessor_ctor cls t p a h = Returns (x, h1)"
  shows "accessor_lock x = \<lparr>pm = Some a, owns = True\<rparr> \<and> accessor_ptr x = p"
  using assms unfolding accessor_ctor_Returns_iff by (cases cls) auto

lemma accessor_ctor_acquired:
  assumes "mtxs h a = Some m" and "mutex_lock t m = Returns m'"
  shows "\<exists>x. accessor_ctor cls t p a h = Returns (x, h\<lparr>mtxs := (mtxs h)(a \<mapsto> m')\<rparr>)"
  using assms by (simp add: accessor_ctor_Returns_iff)

lemma accessor_ctor_thrown:
  assumes "mtxs h a = Some m" and "mutex_lock t m = Throws"
  shows "accessor_ctor cls t p a h = Throws"
  using assms
  by (cases cls)
     (simp_all add: proxy_ctor_def auto_lock_t_ctor_def auto_lock_obj_t_ctor_def
        x_lock_t_def s_lock_t_def unique_lock_ctor_def)

lemma accessor_ctor_Blocks_iff:
  "accessor_ctor cls t p a h = Blocks \<longleftrightarrow>
     (\<exists>m u. mtxs h a = Some m \<and> owner m = Some u \<and> u \<noteq> t)"
proof (cases "mtxs h a")
  case None
  then show ?thesis
    by (cases cls)
       (simp_all add: proxy_ctor_def auto_lock_t_ctor_def auto_lock_obj_t_ctor_def
          x_lock_t_def s_lock_t_def unique_lock_ctor_def)
next
  case (Some m)
  then show ?thesis
    by (cases cls; cases "mutex_lock t m")
       (simp_all add: proxy_ctor_def auto_lock_t_ctor_def auto_lock_obj_t_ctor_def
          x_lock_t_def s_lock_t_def unique_lock_ctor_def mutex_lock_Blocks_iff [symmetric])
qed

lemma accessor_dtor_lock: "accessor_dtor t x h = unique_lock_dtor t (accessor_lock x) h"
  by (cases x) (simp_all add: proxy_dtor_def auto_lock_t_dtor_def auto_lock_obj_t_dtor_def)

lemma accessor_move_lock:
  "accessor_lock (fst (accessor_move x)) = accessor_lock x \<and>
   accessor_lock (snd (accessor_move x)) = \<lparr>pm = None, owns = False\<rparr> \<and>
   accessor_ptr (fst (accessor_move x)) = accessor_ptr x \<and>
   accessor_ptr (snd (accessor_move x)) = accessor_ptr x"
  by (cases x)
     (simp_all add: proxy_move_def auto_lock_t_move_def auto_lock_obj_t_move_def
        unique_lock_move_def)

lemma state_of_move:
  "state_of (fst (accessor_move x)) = state_of x \<and> state_of (snd (accessor_move x)) = unlocked"
  by (simp add: state_of_def accessor_move_lock)

lemma accessor_dtor_unlocked: "state_of x = unlocked \<Longrightarrow> accessor_dtor t x h = Returns h"
  by (simp add: accessor_dtor_lock state_of_def unique_lock_dtor_not_owning split: if_splits)

lemma accessor_ctor_dtor:
  assumes "accessor_ctor cls t p a h = Returns (x, h1)"
  shows "accessor_dtor t x h1 = Returns h"
proof -
  from assms obtain m m' where m: "mtxs h a = Some m" "mutex_lock t m = Returns m'"
    "h1 = h\<lparr>mtxs := (mtxs h)(a \<mapsto> m')\<rparr>"
    by (auto simp: accessor_ctor_Returns_iff)
  have "h\<lparr>mtxs := mtxs h\<rparr> = h" by simp
  from unique_lock_dtor_after_lock [OF m(1,2) this] show ?thesis
    using accessor_ctor_lock [OF assms] m(3) by (simp add: accessor_dtor_lock)
qed

lemma destroy_all_append:
  "destroy_all t (xs @ ys) h = and_then (destroy_all t xs h) (destroy_all t ys)"
proof (induction xs arbitrary: h)
  case Nil
  then show ?case by simp
next
  case (Cons x xs)
  then show ?case by (cases "accessor_dtor t x h") simp_all
qed

lemma destroy_all_unlocked:
  "\<forall>x \<in> set xs. state_of x = unlocked \<Longrightarrow> destroy_all t xs h = Returns h"
  by (induction xs) (simp_all add: accessor_dtor_unlocked)

lemma moves_state:
  "state_of (fst (moves n x)) = state_of x \<and>
   accessor_lock (fst (moves n x)) = accessor_lock x \<and>
   accessor_ptr (fst (moves n x)) = accessor_ptr x \<and>
   (\<forall>y \<in> set (snd (moves n x)). state_of y = unlocked) \<and>
   length (snd (moves n x)) = n"
  by (induction n arbitrary: x) (simp_all add: state_of_move accessor_move_lock)


section \<open>Construction of a wrapper\<close>




section \<open>Copies of a handle\<close>

text \<open>
  C4. A copy of an \<^verbatim>\<open>execute_around\<close> handle refers to the same value and the same
  mutex as the handle it was copied from; copying takes no store and so copies no
  value. Where the value and the mutex exist and the threads \<open>t\<close> and \<open>u\<close> can
  take the mutex: a call of a member function \<open>g\<close> through one handle returns and
  changes that one value in the store, a later read through the other handle returns
  what \<open>g\<close> left, in both directions; and while \<open>t\<close> holds a proxy of one
  handle, \<^verbatim>\<open>operator->\<close> of the other handle blocks every other thread.
\<close>

theorem execute_around_copy_aliases:
  assumes "objs h (ea_p e) = Some v" and "mtxs h (ea_mtx e) = Some m"
    and "mutex_lock t m = Returns mt" and "mutex_lock u m = Returns mu"
  shows "ea_p (execute_around_copy e) = ea_p e \<and>
         ea_mtx (execute_around_copy e) = ea_mtx e \<and>
         (let h1 = h\<lparr>objs := (objs h)(ea_p e \<mapsto> snd (g v))\<rparr> in
            execute_around_call t (Mutable e) (Member g) h = Returns (fst (g v), h1) \<and>
            execute_around_call u (Const (execute_around_copy e)) (Const_member f) h1 =
              Returns (f (snd (g v)), h1) \<and>
            execute_around_call t (Mutable (execute_around_copy e)) (Member g) h =
              Returns (fst (g v), h1) \<and>
            execute_around_call u (Const e) (Const_member f) h1 = Returns (f (snd (g v)), h1)) \<and>
         (let hl = h\<lparr>mtxs := (mtxs h)(ea_mtx e \<mapsto> mt)\<rparr> in
            execute_around_arrow t (Mutable e) h =
              Returns (Mutable \<lparr>px_lock = \<lparr>pm = Some (ea_mtx e), owns = True\<rparr>, px_p = ea_p e\<rparr>, hl) \<and>
            (\<forall>w. w \<noteq> t \<longrightarrow>
               execute_around_arrow w (Mutable (execute_around_copy e)) hl = Blocks))"
proof -
  let ?c = "execute_around_copy e"
  let ?h1 = "h\<lparr>objs := (objs h)(ea_p e \<mapsto> snd (g v))\<rparr>"
  have c: "ea_p ?c = ea_p e" "ea_mtx ?c = ea_mtx e"
    by (simp_all add: execute_around_copy_def)
  have m1: "mtxs ?h1 (ea_mtx e) = Some m" using assms(2) by simp
  have w1: "execute_around_call t (Mutable e) (Member g) h = Returns (fst (g v), ?h1)"
    using assms by (simp add: execute_around_call_acquired [where m = m and m' = mt])
  have w2: "execute_around_call t (Mutable ?c) (Member g) h = Returns (fst (g v), ?h1)"
    using assms c by (simp add: execute_around_call_acquired [where m = m and m' = mt])
  have r1: "execute_around_call u (Const ?c) (Const_member f) ?h1 = Returns (f (snd (g v)), ?h1)"
    using assms(4) m1 c by (simp add: execute_around_call_acquired [where m = m and m' = mu])
  have r2: "execute_around_call u (Const e) (Const_member f) ?h1 = Returns (f (snd (g v)), ?h1)"
    using assms(4) m1 by (simp add: execute_around_call_acquired [where m = m and m' = mu])
  have a: "execute_around_arrow t (Mutable e) h =
      Returns (Mutable \<lparr>px_lock = \<lparr>pm = Some (ea_mtx e), owns = True\<rparr>, px_p = ea_p e\<rparr>,
        h\<lparr>mtxs := (mtxs h)(ea_mtx e \<mapsto> mt)\<rparr>)"
    using assms by (simp add: proxy_ctor_def unique_lock_ctor_def)
  have b: "execute_around_arrow w (Mutable ?c) (h\<lparr>mtxs := (mtxs h)(ea_mtx e \<mapsto> mt)\<rparr>) = Blocks"
    if "w \<noteq> t" for w
    using that assms(3) c mutex_lock_other_Blocks [OF assms(3), of w]
    by (simp add: proxy_ctor_def unique_lock_ctor_def)
  show ?thesis
    using c w1 w2 r1 r2 a b by (simp add: Let_def)
qed

text \<open>
  \<^verbatim>\<open>vecc(10, 10)\<close> of \<^verbatim>\<open>test_execute_around\<close> and a copy of it: thread 0 appends
  an element through the handle, thread 1 sums the vector through the copy.
\<close>

theorem execute_around_copy_aliases_witness:
  "execute_around_call 0 (Mutable \<lparr>ea_mtx = 0, ea_p = 1\<rparr>) (push_back 10)
     \<lparr>objs = [1 \<mapsto> replicate 10 10], mtxs = [0 \<mapsto> Free], next_addr = 2\<rparr> =
     Returns ((), \<lparr>objs = [1 \<mapsto> replicate 11 10], mtxs = [0 \<mapsto> Free], next_addr = 2\<rparr>) \<and>
   execute_around_call 1 (Const (execute_around_copy \<lparr>ea_mtx = 0, ea_p = 1\<rparr>)) accumulate
     \<lparr>objs = [1 \<mapsto> replicate 11 10], mtxs = [0 \<mapsto> Free], next_addr = 2\<rparr> =
     Returns (Some 110, \<lparr>objs = [1 \<mapsto> replicate 11 10], mtxs = [0 \<mapsto> Free], next_addr = 2\<rparr>)"
proof -
  let ?e = "\<lparr>ea_mtx = 0, ea_p = 1\<rparr>"
  let ?h = "\<lparr>objs = [1 \<mapsto> replicate 10 (10::int)], mtxs = [0 \<mapsto> Free], next_addr = 2\<rparr>"
  have 1: "objs ?h (ea_p ?e) = Some (replicate 10 10)" by simp
  have 2: "mtxs ?h (ea_mtx ?e) = Some Free" by simp
  have 3: "mutex_lock 0 Free = Returns (Held 0 0)" by simp
  have 4: "mutex_lock 1 Free = Returns (Held 1 0)" by simp
  have r: "replicate 11 (10::int) = replicate 10 10 @ [10]"
    by (simp add: replicate_append_same numeral_eq_Suc)
  have s: "accumulate_from (replicate 10 10 @ [10]) 0 = Some 110"
    by (simp add: numeral_eq_Suc)
  show ?thesis
    using execute_around_copy_aliases [OF 1 2 3 4, of "\<lambda>v. ((), v @ [10])"
        "\<lambda>v. accumulate_from v 0"]
    by (simp add: push_back_def accumulate_def Let_def r s)
qed


text \<open>
  C3, as the code has it. \<^verbatim>\<open>safe_ptr\<close> holds its value and its mutex in
  \<^verbatim>\<open>std::shared_ptr\<close>s. A handle constructed from constructor arguments refers to
  a value and a mutex of its own: they differ from those of every handle \<open>s0\<close> the
  store already serves, and a call through the new handle leaves the value and the
  mutex of \<open>s0\<close> as they were. A copy of a handle shares the value and the mutex
  of its source: what a call through the copy changes, a read through the source
  returns. (\<^verbatim>\<open>test_safe_ptr\<close> relies on it: each thread works on a copy of
  \<^verbatim>\<open>safe_map_strings_global\<close>.)
\<close>

theorem safe_ptr_shares_with_copies_only:
  assumes "heap_ok h" and "T_ctor args = Inr v"
    and "objs h (sp_ptr s0) = Some v0" and "mtxs h (sp_mtx_ptr s0) = Some m0"
  shows "\<exists>s h'. safe_ptr_ctor T_ctor args h = Inr (s, h') \<and>
           sp_ptr s \<noteq> sp_ptr s0 \<and> sp_mtx_ptr s \<noteq> sp_mtx_ptr s0 \<and>
           sp_ptr (safe_ptr_copy s) = sp_ptr s \<and>
           sp_mtx_ptr (safe_ptr_copy s) = sp_mtx_ptr s \<and>
           (let h1 = h'\<lparr>objs := (objs h')(sp_ptr s \<mapsto> snd (g v))\<rparr> in
              safe_ptr_call t (Mutable s) (Member g) h' = Returns (fst (g v), h1) \<and>
              safe_ptr_call t (Mutable (safe_ptr_copy s)) (Member g) h' = Returns (fst (g v), h1) \<and>
              safe_ptr_call u (Const s) (Const_member f) h1 = Returns (f (snd (g v)), h1) \<and>
              objs h1 (sp_ptr s0) = Some v0 \<and> mtxs h1 (sp_mtx_ptr s0) = Some m0)"
proof -
  let ?s = "\<lparr>sp_ptr = next_addr h, sp_mtx_ptr = Suc (next_addr h)\<rparr>"
  let ?h' = "h\<lparr>objs := (objs h)(next_addr h \<mapsto> v),
               mtxs := (mtxs h)(Suc (next_addr h) \<mapsto> Free),
               next_addr := Suc (Suc (next_addr h))\<rparr>"
  let ?h1 = "?h'\<lparr>objs := (objs ?h')(sp_ptr ?s \<mapsto> snd (g v))\<rparr>"
  have ctor: "safe_ptr_ctor T_ctor args h = Inr (?s, ?h')"
    using assms(2) by (simp add: safe_ptr_ctor_def make_shared_def make_shared_mutex_def)
  have ne: "sp_ptr ?s \<noteq> sp_ptr s0" "sp_mtx_ptr ?s \<noteq> sp_mtx_ptr s0"
    using assms(3,4) heap_ok_fresh [OF assms(1)] heap_ok_fresh_Suc [OF assms(1)] by auto
  have m: "mtxs ?h' (sp_mtx_ptr (unqual (Mutable ?s))) = Some Free"
    "mtxs ?h' (sp_mtx_ptr (unqual (Mutable (safe_ptr_copy ?s)))) = Some Free"
    "mtxs ?h1 (sp_mtx_ptr (unqual (Const ?s))) = Some Free"
    by (simp_all add: safe_ptr_copy_def)
  have l: "mutex_lock t Free = Returns (Held t 0)" "mutex_lock u Free = Returns (Held u 0)"
    by simp_all
  have "safe_ptr_call t (Mutable ?s) (Member g) ?h' = call (sp_pointer (Mutable ?s)) (Member g) ?h'"
    by (rule safe_ptr_call_acquired [OF m(1) l(1)])
  then have w: "safe_ptr_call t (Mutable ?s) (Member g) ?h' = Returns (fst (g v), ?h1)"
    by simp
  have "safe_ptr_call t (Mutable (safe_ptr_copy ?s)) (Member g) ?h' =
      call (sp_pointer (Mutable (safe_ptr_copy ?s))) (Member g) ?h'"
    by (rule safe_ptr_call_acquired [OF m(2) l(1)])
  then have wc: "safe_ptr_call t (Mutable (safe_ptr_copy ?s)) (Member g) ?h' =
      Returns (fst (g v), ?h1)"
    by (simp add: safe_ptr_copy_def)
  have "safe_ptr_call u (Const ?s) (Const_member f) ?h1 =
      call (sp_pointer (Const ?s)) (Const_member f) ?h1"
    by (rule safe_ptr_call_acquired [OF m(3) l(2)])
  then have r: "safe_ptr_call u (Const ?s) (Const_member f) ?h1 = Returns (f (snd (g v)), ?h1)"
    by simp
  have keep: "objs ?h1 (sp_ptr s0) = Some v0" "mtxs ?h1 (sp_mtx_ptr s0) = Some m0"
    using ne assms(3,4) by auto
  show ?thesis
    using ctor ne w wc r keep
    by (intro exI [of _ ?s] exI [of _ ?h']) (simp add: Let_def safe_ptr_copy_def)
qed

text \<open>
  A second map wrapped next to \<^verbatim>\<open>safe_map_strings_global\<close>: inserting a key
  through the new handle or through its copy shows through the new handle, and leaves
  the global map empty.
\<close>

theorem safe_ptr_shares_with_copies_only_witness:
  "safe_ptr_ctor map_ctor () global_heap =
     Inr (\<lparr>sp_ptr = 2, sp_mtx_ptr = 3\<rparr>,
          \<lparr>objs = [0 \<mapsto> Map.empty, 2 \<mapsto> Map.empty], mtxs = [1 \<mapsto> Free, 3 \<mapsto> Free],
             next_addr = 4\<rparr>) \<and>
   safe_ptr_call 0 (Mutable (safe_ptr_copy \<lparr>sp_ptr = 2, sp_mtx_ptr = 3\<rparr>))
       (Member (map_subscript ''apple''))
       \<lparr>objs = [0 \<mapsto> Map.empty, 2 \<mapsto> Map.empty], mtxs = [1 \<mapsto> Free, 3 \<mapsto> Free],
          next_addr = 4\<rparr> =
     Returns (''apple'',
       \<lparr>objs = [0 \<mapsto> Map.empty, 2 \<mapsto> [''apple'' \<mapsto> ([], 0)]],
          mtxs = [1 \<mapsto> Free, 3 \<mapsto> Free], next_addr = 4\<rparr>) \<and>
   safe_ptr_call 1 (Const \<lparr>sp_ptr = 2, sp_mtx_ptr = 3\<rparr>) (Const_member (map_find ''apple''))
       \<lparr>objs = [0 \<mapsto> Map.empty, 2 \<mapsto> [''apple'' \<mapsto> ([], 0)]],
          mtxs = [1 \<mapsto> Free, 3 \<mapsto> Free], next_addr = 4\<rparr> =
     Returns (Some ''apple'',
       \<lparr>objs = [0 \<mapsto> Map.empty, 2 \<mapsto> [''apple'' \<mapsto> ([], 0)]],
          mtxs = [1 \<mapsto> Free, 3 \<mapsto> Free], next_addr = 4\<rparr>)"
proof -
  have g: "global_heap = \<lparr>objs = [0 \<mapsto> Map.empty], mtxs = [1 \<mapsto> Free], next_addr = 2\<rparr>"
    by (simp add: global_heap_def safe_ptr_ctor_def map_ctor_def make_shared_def
        make_shared_mutex_def empty_heap_def)
  have 1: "heap_ok global_heap" by (simp add: g heap_ok_def)
  have 2: "map_ctor () = Inr Map.empty" by (simp add: map_ctor_def)
  have 3: "objs global_heap (sp_ptr \<lparr>sp_ptr = 0, sp_mtx_ptr = 1\<rparr>) = Some Map.empty"
    by (simp add: g)
  have 4: "mtxs global_heap (sp_mtx_ptr \<lparr>sp_ptr = 0, sp_mtx_ptr = 1\<rparr>) = Some Free"
    by (simp add: g)
  show ?thesis
    using safe_ptr_shares_with_copies_only [where h = global_heap and T_ctor = map_ctor
        and args = "()" and v = Map.empty and ?s0.0 = "\<lparr>sp_ptr = 0, sp_mtx_ptr = 1\<rparr>"
        and ?v0.0 = Map.empty and ?m0.0 = Free and g = "map_subscript ''apple''"
        and t = 0 and u = 1 and f = "map_find ''apple''", OF 1 2 3 4]
    by (simp add: g safe_ptr_ctor_def map_ctor_def make_shared_def make_shared_mutex_def
        Let_def map_subscript_def map_find_def safe_ptr_copy_def)
qed

text \<open>
  The claim as stated fails on \<^verbatim>\<open>safe_map_strings_global\<close> and a copy of it (the
  parameter of \<^verbatim>\<open>func\<close>): the two handles hold the same addresses, and the key that
  thread 1 inserts through the copy is found by thread 0 through the global handle,
  where it was not found before.
\<close>

theorem safe_ptr_sole_owner_counterexample:
  "safe_map_strings_global = \<lparr>sp_ptr = 0, sp_mtx_ptr = 1\<rparr> \<and>
   global_heap = \<lparr>objs = [0 \<mapsto> Map.empty], mtxs = [1 \<mapsto> Free], next_addr = 2\<rparr> \<and>
   sp_ptr (safe_ptr_copy safe_map_strings_global) = sp_ptr safe_map_strings_global \<and>
   sp_mtx_ptr (safe_ptr_copy safe_map_strings_global) = sp_mtx_ptr safe_map_strings_global \<and>
   safe_ptr_call 0 (Const safe_map_strings_global) (Const_member (map_find ''apple''))
       global_heap = Returns (None, global_heap) \<and>
   safe_ptr_index map_subscript 1 (Mutable (safe_ptr_copy safe_map_strings_global)) ''apple''
       global_heap =
     Returns (''apple'',
       \<lparr>objs = [0 \<mapsto> [''apple'' \<mapsto> ([], 0)]], mtxs = [1 \<mapsto> Free], next_addr = 2\<rparr>) \<and>
   safe_ptr_call 0 (Const safe_map_strings_global) (Const_member (map_find ''apple''))
       \<lparr>objs = [0 \<mapsto> [''apple'' \<mapsto> ([], 0)]], mtxs = [1 \<mapsto> Free], next_addr = 2\<rparr> =
     Returns (Some ''apple'',
       \<lparr>objs = [0 \<mapsto> [''apple'' \<mapsto> ([], 0)]], mtxs = [1 \<mapsto> Free], next_addr = 2\<rparr>)"
proof -
  have g: "global_heap = \<lparr>objs = [0 \<mapsto> Map.empty], mtxs = [1 \<mapsto> Free], next_addr = 2\<rparr>"
    by (simp add: global_heap_def safe_ptr_ctor_def map_ctor_def make_shared_def
        make_shared_mutex_def empty_heap_def)
  have s: "safe_map_strings_global = \<lparr>sp_ptr = 0, sp_mtx_ptr = 1\<rparr>"
    by (simp add: safe_map_strings_global_def safe_ptr_ctor_def map_ctor_def make_shared_def
        make_shared_mutex_def empty_heap_def)
  have l: "mutex_lock 0 Free = Returns (Held 0 0)" "mutex_lock 1 Free = Returns (Held 1 0)"
    by simp_all
  show ?thesis
    unfolding g s
    by (simp add: safe_ptr_copy_def map_find_def map_subscript_def
        safe_ptr_call_acquired [where m = Free and m' = "Held 0 0"]
        safe_ptr_index_acquired [where m = Free and m' = "Held 1 0"])
qed


section \<open>The const path of safe\_ptr\<close>

text \<open>
  C6. With the default template parameters the lock type of the const path is the lock
  type of the other path. \<^verbatim>\<open>operator->\<close> and \<^verbatim>\<open>operator*\<close> of a const handle do
  to the store what the operators of the handle itself do, on the same mutex, and
  return the same accessor, const-qualified. So an accessor obtained on either path
  excludes the others: while thread \<open>t\<close> holds it, each of the four operators blocks
  every other thread, on the handle and on its copies.
\<close>

theorem const_path_takes_the_exclusive_lock:
  "(s_lock_t :: 'a req_lock) = x_lock_t \<and>
   safe_ptr_arrow t (Const s) (h :: 'a heap) =
     and_then (safe_ptr_arrow t (Mutable s) h) (\<lambda>(x, h'). Returns (Const (unqual x), h')) \<and>
   safe_ptr_star t (Const s) h =
     and_then (safe_ptr_star t (Mutable s) h) (\<lambda>(x, h'). Returns (Const (unqual x), h')) \<and>
   (\<forall>c x y h1 u d.
      (safe_ptr_arrow t c h = Returns (x, h1) \<or> safe_ptr_star t c h = Returns (y, h1)) \<and>
      unqual c = s \<and> u \<noteq> t \<and> sp_mtx_ptr (unqual d) = sp_mtx_ptr s \<longrightarrow>
      safe_ptr_arrow u d h1 = Blocks \<and> safe_ptr_star u d h1 = Blocks)"
proof -
  have same: "(s_lock_t :: 'a req_lock) = x_lock_t"
    by (simp add: s_lock_t_def x_lock_t_def)
  have arrow: "safe_ptr_arrow t (Const s) h =
      and_then (safe_ptr_arrow t (Mutable s) h) (\<lambda>(x, h'). Returns (Const (unqual x), h'))"
    by (cases "auto_lock_t_ctor x_lock_t t (sp_ptr s) (sp_mtx_ptr s) h")
       (auto simp: same)
  have star: "safe_ptr_star t (Const s) h =
      and_then (safe_ptr_star t (Mutable s) h) (\<lambda>(x, h'). Returns (Const (unqual x), h'))"
    by (cases "auto_lock_obj_t_ctor x_lock_t t (sp_ptr s) (sp_mtx_ptr s) h")
       (auto simp: same)
  have held: "\<exists>m m'. mtxs h (sp_mtx_ptr s) = Some m \<and> mutex_lock t m = Returns m' \<and>
        h1 = h\<lparr>mtxs := (mtxs h)(sp_mtx_ptr s \<mapsto> m')\<rparr>"
    if A: "safe_ptr_arrow t c h = Returns (x, h1) \<or> safe_ptr_star t c h = Returns (y, h1)"
      and B: "unqual c = s" for c x y h1
    using A B
    by (cases c)
       (auto simp: and_then_Returns_iff auto_lock_t_ctor_def auto_lock_obj_t_ctor_def
          x_lock_t_def s_lock_t_def unique_lock_ctor_Returns_iff)
  have excl: "safe_ptr_arrow u d h1 = Blocks \<and> safe_ptr_star u d h1 = Blocks"
    if A: "safe_ptr_arrow t c h = Returns (x, h1) \<or> safe_ptr_star t c h = Returns (y, h1)"
      and B: "unqual c = s" and C: "u \<noteq> t" and D: "sp_mtx_ptr (unqual d) = sp_mtx_ptr s"
    for c x y h1 u d
  proof -
    obtain m m' where m: "mtxs h (sp_mtx_ptr s) = Some m" "mutex_lock t m = Returns m'"
      "h1 = h\<lparr>mtxs := (mtxs h)(sp_mtx_ptr s \<mapsto> m')\<rparr>"
      using held [OF A B] by blast
    have "mutex_lock u m' = Blocks"
      using mutex_lock_other_Blocks [OF m(2) C] .
    then show ?thesis
      using m(3) D
      by (cases d)
         (simp_all add: auto_lock_t_ctor_def auto_lock_obj_t_ctor_def x_lock_t_def
            s_lock_t_def unique_lock_ctor_def)
  qed
  show ?thesis
    using same arrow star excl by blast
qed

text \<open>
  Thread 0 reads \<^verbatim>\<open>safe_map_strings_global\<close> through a const handle; while it holds
  the accessor, thread 1 cannot get one through its copy, on either path.
\<close>

theorem const_path_takes_the_exclusive_lock_witness:
  "safe_ptr_arrow 0 (Const \<lparr>sp_ptr = 0, sp_mtx_ptr = 1\<rparr>)
       \<lparr>objs = [0 \<mapsto> (Map.empty :: smap)], mtxs = [1 \<mapsto> Free], next_addr = 2\<rparr> =
     Returns (Const \<lparr>al_ptr = 0, al_lock = \<lparr>pm = Some 1, owns = True\<rparr>\<rparr>,
       \<lparr>objs = [0 \<mapsto> Map.empty], mtxs = [1 \<mapsto> Held 0 0], next_addr = 2\<rparr>) \<and>
   (1::nat) \<noteq> 0 \<and>
   safe_ptr_arrow 1 (Mutable (safe_ptr_copy \<lparr>sp_ptr = 0, sp_mtx_ptr = 1\<rparr>))
       \<lparr>objs = [0 \<mapsto> (Map.empty :: smap)], mtxs = [1 \<mapsto> Held 0 0], next_addr = 2\<rparr> = Blocks \<and>
   safe_ptr_star 1 (Mutable (safe_ptr_copy \<lparr>sp_ptr = 0, sp_mtx_ptr = 1\<rparr>))
       \<lparr>objs = [0 \<mapsto> (Map.empty :: smap)], mtxs = [1 \<mapsto> Held 0 0], next_addr = 2\<rparr> = Blocks"
proof -
  let ?s = "\<lparr>sp_ptr = 0, sp_mtx_ptr = 1\<rparr>"
  let ?h = "\<lparr>objs = [0 \<mapsto> (Map.empty :: smap)], mtxs = [1 \<mapsto> Free], next_addr = 2\<rparr>"
  let ?x = "Const \<lparr>al_ptr = 0, al_lock = \<lparr>pm = Some 1, owns = True\<rparr>\<rparr>"
  let ?h1 = "\<lparr>objs = [0 \<mapsto> (Map.empty :: smap)], mtxs = [1 \<mapsto> Held 0 0], next_addr = 2\<rparr>"
  have a: "safe_ptr_arrow 0 (Const ?s) ?h = Returns (?x, ?h1)"
    by (simp add: auto_lock_t_ctor_def s_lock_t_def unique_lock_ctor_def)
  have all: "\<forall>c x y h1 u d.
      (safe_ptr_arrow 0 c ?h = Returns (x, h1) \<or> safe_ptr_star 0 c ?h = Returns (y, h1)) \<and>
      unqual c = ?s \<and> u \<noteq> 0 \<and> sp_mtx_ptr (unqual d) = sp_mtx_ptr ?s \<longrightarrow>
      safe_ptr_arrow u d h1 = Blocks \<and> safe_ptr_star u d h1 = Blocks"
    using const_path_takes_the_exclusive_lock [of 0 ?s ?h] by blast
  have b: "safe_ptr_arrow 1 (Mutable (safe_ptr_copy ?s)) ?h1 = Blocks \<and>
      safe_ptr_star 1 (Mutable (safe_ptr_copy ?s)) ?h1 = Blocks"
  proof (rule all [rule_format, where c = "Const ?s" and x = ?x and ?h1.0 = ?h1])
    show "(safe_ptr_arrow 0 (Const ?s) ?h = Returns (?x, ?h1) \<or>
        safe_ptr_star 0 (Const ?s) ?h = Returns (Const \<lparr>alo_ptr = 0, alo_lock = \<lparr>pm = Some 1, owns = True\<rparr>\<rparr>, ?h1)) \<and>
      unqual (Const ?s) = ?s \<and> (1::nat) \<noteq> 0 \<and>
      sp_mtx_ptr (unqual (Mutable (safe_ptr_copy ?s))) = sp_mtx_ptr ?s"
      using a by (simp add: safe_ptr_copy_def)
  qed
  show ?thesis using a b by simp
qed


section \<open>Indexed access\<close>

text \<open>
  C8. Where the wrapped container \<open>c\<close> and the mutex exist and thread \<open>t\<close> can
  take the mutex, \<^verbatim>\<open>operator*\<close> of a \<^verbatim>\<open>safe_ptr\<close> takes the mutex and returns an
  accessor; the accessor's \<^verbatim>\<open>operator[]\<close> returns what the container's own
  \<^verbatim>\<open>operator[]\<close> returns for the argument and does to the container what the
  container's own operator does; the mutex stays owned by \<open>t\<close>, so that the
  operators of the handle block every other thread, until the accessor is destroyed,
  which gives the mutex back as it was. What the caller holds is the accessor, whose
  one member function is this \<^verbatim>\<open>operator[]\<close>.
\<close>

theorem indexed_access_forwards_under_the_lock:
  assumes "objs h (sp_ptr s) = Some c" and "mtxs h (sp_mtx_ptr s) = Some m"
    and "mutex_lock t m = Returns m'"
  shows "let x = \<lparr>alo_ptr = sp_ptr s, alo_lock = \<lparr>pm = Some (sp_mtx_ptr s), owns = True\<rparr>\<rparr>;
             h1 = h\<lparr>mtxs := (mtxs h)(sp_mtx_ptr s \<mapsto> m')\<rparr>;
             h2 = h1\<lparr>objs := (objs h1)(sp_ptr s \<mapsto> snd (subscript k c))\<rparr>;
             h3 = h\<lparr>objs := (objs h)(sp_ptr s \<mapsto> snd (subscript k c))\<rparr>
         in safe_ptr_star t (Mutable s) h = Returns (Mutable x, h1) \<and>
            auto_lock_obj_t_index subscript (Mutable x) k h1 = Returns (fst (subscript k c), h2) \<and>
            mtxs h2 (sp_mtx_ptr s) = Some m' \<and> owner m' = Some t \<and>
            (\<forall>u. u \<noteq> t \<longrightarrow>
               safe_ptr_star u (Mutable s) h2 = Blocks \<and> safe_ptr_arrow u (Mutable s) h2 = Blocks \<and>
               safe_ptr_star u (Const s) h2 = Blocks \<and> safe_ptr_arrow u (Const s) h2 = Blocks) \<and>
            auto_lock_obj_t_dtor t x h2 = Returns h3 \<and>
            safe_ptr_index subscript t (Mutable s) k h = Returns (fst (subscript k c), h3)"
proof -
  let ?x = "\<lparr>alo_ptr = sp_ptr s, alo_lock = \<lparr>pm = Some (sp_mtx_ptr s), owns = True\<rparr>\<rparr>"
  let ?h1 = "h\<lparr>mtxs := (mtxs h)(sp_mtx_ptr s \<mapsto> m')\<rparr>"
  let ?h2 = "?h1\<lparr>objs := (objs ?h1)(sp_ptr s \<mapsto> snd (subscript k c))\<rparr>"
  let ?h3 = "h\<lparr>objs := (objs h)(sp_ptr s \<mapsto> snd (subscript k c))\<rparr>"
  have star: "safe_ptr_star t (Mutable s) h = Returns (Mutable ?x, ?h1)"
    using assms by (simp add: auto_lock_obj_t_ctor_def x_lock_t_def unique_lock_ctor_def)
  have idx: "auto_lock_obj_t_index subscript (Mutable ?x) k ?h1 = Returns (fst (subscript k c), ?h2)"
    using assms(1) by simp
  have own: "owner m' = Some t"
    using assms(3) by (simp add: mutex_lock_Returns_iff)
  have blocks: "safe_ptr_star u (Mutable s) ?h2 = Blocks \<and> safe_ptr_arrow u (Mutable s) ?h2 = Blocks \<and>
      safe_ptr_star u (Const s) ?h2 = Blocks \<and> safe_ptr_arrow u (Const s) ?h2 = Blocks"
    if "u \<noteq> t" for u
    using mutex_lock_other_Blocks [OF assms(3) that]
    by (simp add: auto_lock_obj_t_ctor_def auto_lock_t_ctor_def x_lock_t_def s_lock_t_def
        unique_lock_ctor_def)
  have "?h3\<lparr>mtxs := mtxs h\<rparr> = ?h3" by simp
  from unique_lock_dtor_after_lock [OF assms(2,3) this]
  have dtor: "auto_lock_obj_t_dtor t ?x ?h2 = Returns ?h3"
    by (simp add: auto_lock_obj_t_dtor_def heap_update_order)
  have whole: "safe_ptr_index subscript t (Mutable s) k h = Returns (fst (subscript k c), ?h3)"
    using assms(1) by (simp add: safe_ptr_index_acquired [OF assms(2,3)])
  show ?thesis
    unfolding Let_def using star idx own blocks dtor whole by simp
qed

text \<open>
  \<^verbatim>\<open>(*safe_map_strings)["apple"]\<close> of \<^verbatim>\<open>func\<close>, run by thread 3 on the new global
  map: the key is inserted, as \<^verbatim>\<open>std::map::operator[]\<close> does.
\<close>

theorem indexed_access_forwards_under_the_lock_witness:
  "safe_ptr_star 3 (Mutable \<lparr>sp_ptr = 0, sp_mtx_ptr = 1\<rparr>)
       \<lparr>objs = [0 \<mapsto> (Map.empty :: smap)], mtxs = [1 \<mapsto> Free], next_addr = 2\<rparr> =
     Returns (Mutable \<lparr>alo_ptr = 0, alo_lock = \<lparr>pm = Some 1, owns = True\<rparr>\<rparr>,
       \<lparr>objs = [0 \<mapsto> Map.empty], mtxs = [1 \<mapsto> Held 3 0], next_addr = 2\<rparr>) \<and>
   auto_lock_obj_t_index map_subscript
       (Mutable \<lparr>alo_ptr = 0, alo_lock = \<lparr>pm = Some 1, owns = True\<rparr>\<rparr>) ''apple''
       \<lparr>objs = [0 \<mapsto> Map.empty], mtxs = [1 \<mapsto> Held 3 0], next_addr = 2\<rparr> =
     Returns (''apple'',
       \<lparr>objs = [0 \<mapsto> [''apple'' \<mapsto> ([], 0)]], mtxs = [1 \<mapsto> Held 3 0], next_addr = 2\<rparr>) \<and>
   safe_ptr_index map_subscript 3 (Mutable \<lparr>sp_ptr = 0, sp_mtx_ptr = 1\<rparr>) ''apple''
       \<lparr>objs = [0 \<mapsto> Map.empty], mtxs = [1 \<mapsto> Free], next_addr = 2\<rparr> =
     Returns (''apple'',
       \<lparr>objs = [0 \<mapsto> [''apple'' \<mapsto> ([], 0)]], mtxs = [1 \<mapsto> Free], next_addr = 2\<rparr>)"
proof -
  let ?s = "\<lparr>sp_ptr = 0, sp_mtx_ptr = 1\<rparr>"
  let ?h = "\<lparr>objs = [0 \<mapsto> (Map.empty :: smap)], mtxs = [1 \<mapsto> Free], next_addr = 2\<rparr>"
  have 1: "objs ?h (sp_ptr ?s) = Some Map.empty" by simp
  have 2: "mtxs ?h (sp_mtx_ptr ?s) = Some Free" by simp
  have 3: "mutex_lock 3 Free = Returns (Held 3 0)" by simp
  show ?thesis
    using indexed_access_forwards_under_the_lock [OF 1 2 3, of map_subscript "''apple''"]
    by (simp add: Let_def map_subscript_def)
qed


section \<open>Access through a const handle\<close>

text \<open>
  C10, as the code has it. Member redirection through a const handle yields a
  \<^verbatim>\<open>const T*\<close>: for a const \<^verbatim>\<open>safe_ptr\<close> and for a const
  \<^verbatim>\<open>execute_around\<close>, the accessor that \<^verbatim>\<open>operator->\<close> returns hands out a
  pointer to const. A call of a member function that is not const does not return
  through it, \<^verbatim>\<open>operator[]\<close> of the accessor of a const \<^verbatim>\<open>safe_ptr\<close> is not
  callable, and a row of calls by member redirection through a const handle, when it
  returns, leaves the store as it was. (\<^verbatim>\<open>get_p()\<close> of a const
  \<^verbatim>\<open>execute_around\<close> is another matter: it gives a pointer to the value that is not
  const.)
\<close>

theorem const_redirection_is_read_only:
  "(\<forall>x h1. safe_ptr_arrow t (Const s) h = Returns (x, h1) \<longrightarrow>
            auto_lock_t_arrow x = Const_ptr (sp_ptr s)) \<and>
   (\<forall>x h1. execute_around_arrow t (Const e) h = Returns (x, h1) \<longrightarrow>
            proxy_arrow x = Const_ptr (ea_p e)) \<and>
   (\<forall>g rh. safe_ptr_call t (Const s) (Member g) h \<noteq> Returns rh) \<and>
   (\<forall>g rh. execute_around_call t (Const e) (Member g) h \<noteq> Returns rh) \<and>
   (\<forall>subscript k rh. safe_ptr_index subscript t (Const s) k h \<noteq> Returns rh) \<and>
   (\<forall>fs rs h'. calls (safe_ptr_call t (Const s)) fs h = Returns (rs, h') \<longrightarrow> h' = h) \<and>
   (\<forall>fs rs h'. calls (execute_around_call t (Const e)) fs h = Returns (rs, h') \<longrightarrow> h' = h) \<and>
   shared_ptr_get (get_p (Const e)) = Ptr (ea_p e)"
proof -
  have sp_one: "h' = h0" if "safe_ptr_call t (Const s) f h0 = Returns (r, h')" for f r h' h0
  proof -
    from that obtain m where m: "mtxs h0 (sp_mtx_ptr s) = Some m"
      by (auto simp: safe_ptr_call_def and_then_Returns_iff auto_lock_t_ctor_def s_lock_t_def
          unique_lock_ctor_def split: option.splits)
    show ?thesis
    proof (cases "mutex_lock t m")
      case (Returns m')
      have "safe_ptr_call t (Const s) f h0 = call (Const_ptr (sp_ptr s)) f h0"
        using safe_ptr_call_acquired [of h0 "Const s" m t m' f] m Returns by simp
      then show ?thesis using that call_Const_ptr_Returns by metis
    next
      case Blocks
      then show ?thesis using that m safe_ptr_call_blocked [of h0 "Const s" m t f] by simp
    qed (use that m in \<open>simp_all add: safe_ptr_call_def auto_lock_t_ctor_def s_lock_t_def
          unique_lock_ctor_def\<close>)
  qed
  have ea_one: "h' = h0" if "execute_around_call t (Const e) f h0 = Returns (r, h')" for f r h' h0
  proof -
    from that obtain m where m: "mtxs h0 (ea_mtx e) = Some m"
      by (auto simp: execute_around_call_def and_then_Returns_iff proxy_ctor_def
          unique_lock_ctor_def split: option.splits)
    show ?thesis
    proof (cases "mutex_lock t m")
      case (Returns m')
      have "execute_around_call t (Const e) f h0 = call (Const_ptr (ea_p e)) f h0"
        using execute_around_call_acquired [of h0 "Const e" m t m' f] m Returns by simp
      then show ?thesis using that call_Const_ptr_Returns by metis
    next
      case Blocks
      then show ?thesis using that m execute_around_call_blocked [of h0 "Const e" m t f] by simp
    qed (use that m in \<open>simp_all add: execute_around_call_def proxy_ctor_def
          unique_lock_ctor_def\<close>)
  qed
  have sp_mem: "safe_ptr_call t (Const s) (Member g) h \<noteq> Returns rh" for g rh
    by (auto simp: safe_ptr_call_def and_then_Returns_iff)
  have ea_mem: "execute_around_call t (Const e) (Member g) h \<noteq> Returns rh" for g rh
    by (auto simp: execute_around_call_def and_then_Returns_iff)
  have sp_idx: "safe_ptr_index subscript t (Const s) k h \<noteq> Returns rh" for subscript k rh
    by (auto simp: safe_ptr_index_def and_then_Returns_iff)
  have sp_all: "calls (safe_ptr_call t (Const s)) fs h0 = Returns (rs, h') \<Longrightarrow> h' = h0"
    for fs rs h' h0
  proof (induction fs arbitrary: rs h0)
    case Nil
    then show ?case by simp
  next
    case (Cons f fs)
    then show ?case
      by (auto simp: and_then_Returns_iff dest!: sp_one)
  qed
  have ea_all: "calls (execute_around_call t (Const e)) fs h0 = Returns (rs, h') \<Longrightarrow> h' = h0"
    for fs rs h' h0
  proof (induction fs arbitrary: rs h0)
    case Nil
    then show ?case by simp
  next
    case (Cons f fs)
    then show ?case
      by (auto simp: and_then_Returns_iff dest!: ea_one)
  qed
  have sp_ptr': "auto_lock_t_arrow x = Const_ptr (sp_ptr s)"
    if "safe_ptr_arrow t (Const s) h = Returns (x, h1)" for x h1
    using that by (auto simp: and_then_Returns_iff auto_lock_t_ctor_def)
  have ea_ptr': "proxy_arrow x = Const_ptr (ea_p e)"
    if "execute_around_arrow t (Const e) h = Returns (x, h1)" for x h1
    using that by (auto simp: and_then_Returns_iff proxy_ctor_def)
  have gp: "shared_ptr_get (get_p (Const e)) = Ptr (ea_p e)"
    by (simp add: shared_ptr_get_def get_p_def)
  show ?thesis
    using sp_ptr' ea_ptr' sp_mem ea_mem sp_idx sp_all ea_all gp by blast
qed

text \<open>
  Two sums of \<^verbatim>\<open>vecc(10, 10)\<close> through a const handle, as
  \<^verbatim>\<open>std::accumulate\<close> reads it in \<^verbatim>\<open>test_execute_around\<close>.
\<close>

theorem const_redirection_is_read_only_witness:
  "calls (execute_around_call 0 (Const \<lparr>ea_mtx = 0, ea_p = 1\<rparr>)) [accumulate, accumulate]
       \<lparr>objs = [1 \<mapsto> replicate 10 10], mtxs = [0 \<mapsto> Free], next_addr = 2\<rparr> =
     Returns ([Some 100, Some 100],
       \<lparr>objs = [1 \<mapsto> replicate 10 10], mtxs = [0 \<mapsto> Free], next_addr = 2\<rparr>) \<and>
   execute_around_arrow 0 (Const \<lparr>ea_mtx = 0, ea_p = 1\<rparr>)
       \<lparr>objs = [1 \<mapsto> replicate 10 (10::int)], mtxs = [0 \<mapsto> Free], next_addr = 2\<rparr> =
     Returns (Const \<lparr>px_lock = \<lparr>pm = Some 0, owns = True\<rparr>, px_p = 1\<rparr>,
       \<lparr>objs = [1 \<mapsto> replicate 10 10], mtxs = [0 \<mapsto> Held 0 0], next_addr = 2\<rparr>) \<and>
   proxy_arrow (Const \<lparr>px_lock = \<lparr>pm = Some 0, owns = True\<rparr>, px_p = 1\<rparr>) = Const_ptr 1"
proof -
  let ?e = "\<lparr>ea_mtx = 0, ea_p = 1\<rparr>"
  let ?h = "\<lparr>objs = [1 \<mapsto> replicate 10 (10::int)], mtxs = [0 \<mapsto> Free], next_addr = 2\<rparr>"
  have s: "accumulate_from (replicate 10 10) 0 = Some 100"
    by (simp add: numeral_eq_Suc)
  have c: "execute_around_call 0 (Const ?e) accumulate ?h = Returns (Some 100, ?h)"
    by (simp add: execute_around_call_acquired [where m = Free and m' = "Held 0 0"]
        accumulate_def s)
  have cs: "calls (execute_around_call 0 (Const ?e)) [accumulate, accumulate] ?h =
      Returns ([Some 100, Some 100], ?h)"
    by (simp only: calls.simps c and_then.simps prod.case)
  have a: "execute_around_arrow 0 (Const ?e) ?h =
      Returns (Const \<lparr>px_lock = \<lparr>pm = Some 0, owns = True\<rparr>, px_p = 1\<rparr>,
        \<lparr>objs = [1 \<mapsto> replicate 10 10], mtxs = [0 \<mapsto> Held 0 0], next_addr = 2\<rparr>)"
    by (simp add: proxy_ctor_def unique_lock_ctor_def)
  show ?thesis
    using const_redirection_is_read_only [of 0 s' ?h ?e for s'] cs a by simp
qed

text \<open>
  The claim as stated fails on a const handle of \<^verbatim>\<open>vecc(10, 10)\<close>:
  \<^verbatim>\<open>get_p()\<close> is a const member function that returns a
  \<^verbatim>\<open>shared_ptr<T>\<close>, and \<^verbatim>\<open>push_back\<close> through it changes the vector.
\<close>

theorem const_handle_get_p_counterexample:
  "shared_ptr_get (get_p (Const \<lparr>ea_mtx = 0, ea_p = 1\<rparr>)) = Ptr 1 \<and>
   call (shared_ptr_get (get_p (Const \<lparr>ea_mtx = 0, ea_p = 1\<rparr>))) (push_back 7)
       \<lparr>objs = [1 \<mapsto> replicate 10 10], mtxs = [0 \<mapsto> Free], next_addr = 2\<rparr> =
     Returns ((),
       \<lparr>objs = [1 \<mapsto> replicate 10 10 @ [7]], mtxs = [0 \<mapsto> Free], next_addr = 2\<rparr>) \<and>
   replicate 10 10 @ [7] \<noteq> replicate 10 (10::int)"
  by (simp add: shared_ptr_get_def get_p_def push_back_def)


section \<open>The states of an accessor\<close>

lemma life_states:
  "life t es y h = Returns (ss, h') \<Longrightarrow>
     ss = map (\<lambda>e. state_of y) (takeWhile (\<lambda>e. e = Use) es) @
          map (\<lambda>e. unlocked) (dropWhile (\<lambda>e. e = Use) es)"
proof (induction es arbitrary: y ss h')
  case Nil
  then show ?case by simp
next
  case (Cons e es)
  show ?case
  proof (cases e)
    case Use
    with Cons.prems obtain ss' where "life t es y h = Returns (ss', h')" "ss = state_of y # ss'"
      by (auto simp: and_then_Returns_iff)
    with Cons.IH [of y ss' h'] Use show ?thesis by simp
  next
    case Moved_from
    let ?y = "snd (accessor_move y)"
    from Cons.prems Moved_from obtain ss'
      where s: "life t es ?y h = Returns (ss', h')" "ss = state_of ?y # ss'"
      by (auto simp: and_then_Returns_iff)
    have u: "state_of ?y = unlocked" by (simp add: state_of_move)
    from Cons.IH [OF s(1)] u
    have "ss' = map (\<lambda>e. unlocked) (takeWhile (\<lambda>e. e = Use) es) @
        map (\<lambda>e. unlocked) (dropWhile (\<lambda>e. e = Use) es)"
      by simp
    then have "ss' = map (\<lambda>e. unlocked) es"
      by (metis map_append takeWhile_dropWhile_id)
    with s(2) u Moved_from show ?thesis by simp
  next
    case Destroyed
    with Cons.prems show ?thesis
      by (auto simp: and_then_Returns_iff split: if_splits)
  qed
qed

lemma unlocked_stays:
  assumes "ss = map (\<lambda>e. s0) xs @ map (\<lambda>e. unlocked) ys"
    and "i \<le> j" and "j < length ss" and "ss ! i = unlocked"
  shows "ss ! j = unlocked"
proof -
  have nth: "ss ! k = (if k < length xs then s0 else unlocked)" if "k < length ss" for k
    using that assms(1) by (auto simp: nth_append)
  have "i < length ss" using assms(2,3) by simp
  with nth [of i] assms(4) have "i < length xs \<longrightarrow> s0 = unlocked" by auto
  with nth [OF assms(3)] assms(2) show ?thesis by auto
qed

text \<open>
  C2, as the code has it. An accessor is in one of the states locked and unlocked
  (the flag \<^verbatim>\<open>owns\<close> of its member \<^verbatim>\<open>lock\<close>). An accessor constructed from a
  pointer and a mutex is locked when its constructor returns, and the constructor
  blocks exactly when another thread owns the mutex. A move-constructed accessor is in
  the state its source was in, and the source is unlocked from then on. Over the life
  of an accessor \<open>y\<close> (the events \<open>es\<close>, the states \<open>ss\<close> after each of
  them) the state is the one \<open>y\<close> started in as long as only member functions are
  called on it, and unlocked from the first move out of it or from its destruction on;
  so once unlocked, it is never locked again. The destructor of an unlocked accessor
  leaves the store as it is; the destructor of an accessor locked by its constructor
  gives the mutex back.
\<close>

theorem accessor_states:
  "(\<forall>x h1. accessor_ctor cls t p a h = Returns (x, h1) \<longrightarrow>
            state_of x = locked \<and> accessor_dtor t x h1 = Returns h) \<and>
   (accessor_ctor cls t p a h = Blocks \<longleftrightarrow>
      (\<exists>m u. mtxs h a = Some m \<and> owner m = Some u \<and> u \<noteq> t)) \<and>
   state_of (fst (accessor_move y)) = state_of y \<and>
   state_of (snd (accessor_move y)) = unlocked \<and>
   (state_of y = unlocked \<longrightarrow> accessor_dtor t y h = Returns h) \<and>
   (\<forall>ss h'. life t es y h = Returns (ss, h') \<longrightarrow>
      ss = map (\<lambda>e. state_of y) (takeWhile (\<lambda>e. e = Use) es) @
           map (\<lambda>e. unlocked) (dropWhile (\<lambda>e. e = Use) es) \<and>
      (\<forall>i j. i \<le> j \<and> j < length ss \<and> ss ! i = unlocked \<longrightarrow> ss ! j = unlocked))"
proof -
  have ctor: "state_of x = locked \<and> accessor_dtor t x h1 = Returns h"
    if "accessor_ctor cls t p a h = Returns (x, h1)" for x h1
    using accessor_ctor_lock [OF that] accessor_ctor_dtor [OF that]
    by (simp add: state_of_def)
  have lf: "ss = map (\<lambda>e. state_of y) (takeWhile (\<lambda>e. e = Use) es) @
        map (\<lambda>e. unlocked) (dropWhile (\<lambda>e. e = Use) es) \<and>
      (\<forall>i j. i \<le> j \<and> j < length ss \<and> ss ! i = unlocked \<longrightarrow> ss ! j = unlocked)"
    if "life t es y h = Returns (ss, h')" for ss h'
    using life_states [OF that] unlocked_stays by blast
  show ?thesis
    using ctor lf accessor_ctor_Blocks_iff [of cls t p a h] state_of_move [of y]
      accessor_dtor_unlocked [of y t h]
    by blast
qed

text \<open>
  \<^verbatim>\<open>tmp1\<close> of \<^verbatim>\<open>test_execute_around\<close>, on \<^verbatim>\<open>vecc(10, 10)\<close>: constructed by
  thread 0, used once (\<^verbatim>\<open>tmp1->begin()\<close>), destroyed.
\<close>

theorem accessor_states_witness:
  "accessor_ctor Proxy_class 0 1 0
       \<lparr>objs = [1 \<mapsto> replicate 10 (10::int)], mtxs = [0 \<mapsto> Free], next_addr = 2\<rparr> =
     Returns (Proxy \<lparr>px_lock = \<lparr>pm = Some 0, owns = True\<rparr>, px_p = 1\<rparr>,
       \<lparr>objs = [1 \<mapsto> replicate 10 10], mtxs = [0 \<mapsto> Held 0 0], next_addr = 2\<rparr>) \<and>
   state_of (Proxy \<lparr>px_lock = \<lparr>pm = Some 0, owns = True\<rparr>, px_p = 1\<rparr>) = locked \<and>
   life 0 [Use, Destroyed] (Proxy \<lparr>px_lock = \<lparr>pm = Some 0, owns = True\<rparr>, px_p = 1\<rparr>)
       \<lparr>objs = [1 \<mapsto> replicate 10 (10::int)], mtxs = [0 \<mapsto> Held 0 0], next_addr = 2\<rparr> =
     Returns ([locked, unlocked],
       \<lparr>objs = [1 \<mapsto> replicate 10 10], mtxs = [0 \<mapsto> Free], next_addr = 2\<rparr>)"
proof -
  let ?h = "\<lparr>objs = [1 \<mapsto> replicate 10 (10::int)], mtxs = [0 \<mapsto> Free], next_addr = 2\<rparr>"
  let ?h1 = "\<lparr>objs = [1 \<mapsto> replicate 10 (10::int)], mtxs = [0 \<mapsto> Held 0 0], next_addr = 2\<rparr>"
  let ?x = "Proxy \<lparr>px_lock = \<lparr>pm = Some 0, owns = True\<rparr>, px_p = 1\<rparr>"
  have c: "accessor_ctor Proxy_class 0 1 0 ?h = Returns (?x, ?h1)"
    by (simp add: proxy_ctor_def unique_lock_ctor_def)
  have l: "life 0 [Use, Destroyed] ?x ?h1 = Returns ([locked, unlocked], ?h)"
    by (simp add: proxy_dtor_def unique_lock_dtor_def state_of_def)
  show ?thesis
    using accessor_states [of Proxy_class 0 1 0 ?h ?x "[Use, Destroyed]"] c l
    by (simp add: state_of_def)
qed

text \<open>
  The claim as stated fails when an accessor is moved. A proxy constructed as
  \<^verbatim>\<open>tmp1\<close> is, used, and then the source of a move construction, is unlocked from
  the move on, while it still lives; its destruction after that releases nothing (the
  mutex is still held, by the proxy it was moved into); and an accessor
  move-constructed from the source of an earlier move is unlocked when its constructor
  returns.
\<close>

theorem accessor_unlocked_by_move_counterexample:
  "accessor_ctor Proxy_class 0 1 0
       \<lparr>objs = [1 \<mapsto> replicate 10 (10::int)], mtxs = [0 \<mapsto> Free], next_addr = 2\<rparr> =
     Returns (Proxy \<lparr>px_lock = \<lparr>pm = Some 0, owns = True\<rparr>, px_p = 1\<rparr>,
       \<lparr>objs = [1 \<mapsto> replicate 10 10], mtxs = [0 \<mapsto> Held 0 0], next_addr = 2\<rparr>) \<and>
   life 0 [Use, Moved_from, Use, Destroyed]
       (Proxy \<lparr>px_lock = \<lparr>pm = Some 0, owns = True\<rparr>, px_p = 1\<rparr>)
       \<lparr>objs = [1 \<mapsto> replicate 10 (10::int)], mtxs = [0 \<mapsto> Held 0 0], next_addr = 2\<rparr> =
     Returns ([locked, unlocked, unlocked, unlocked],
       \<lparr>objs = [1 \<mapsto> replicate 10 10], mtxs = [0 \<mapsto> Held 0 0], next_addr = 2\<rparr>) \<and>
   state_of (fst (accessor_move (snd (accessor_move
       (Proxy \<lparr>px_lock = \<lparr>pm = Some 0, owns = True\<rparr>, px_p = 1\<rparr>))))) = unlocked"
  by (simp add: proxy_ctor_def unique_lock_ctor_def proxy_dtor_def unique_lock_dtor_def
      state_of_def proxy_move_def unique_lock_move_def)


section \<open>Moving an accessor\<close>

text \<open>
  C5. Each accessor class has a move constructor (and, having one, no copy
  constructor: the model has no operation that copies an accessor). Let thread \<open>t\<close>
  construct an accessor \<open>x\<close>, which takes the mutex once. Moving \<open>x\<close> gives an
  accessor with the pointer and the lock of \<open>x\<close>, locked, and leaves \<open>x\<close>
  unlocked; the destructor of the source leaves the store as it is, the destructor of
  the new accessor gives the mutex back as it was before \<open>x\<close> was constructed. The
  same holds after \<open>n\<close> moves in a row: the last accessor is locked, every source
  is unlocked, destroying the sources changes nothing, and destroying all of them and
  the last accessor, in either order, undoes the one acquisition.
\<close>

theorem move_transfers_the_lock:
  assumes "accessor_ctor cls t p a h = Returns (x, h1)"
  shows "accessor_lock (fst (accessor_move x)) = accessor_lock x \<and>
         accessor_ptr (fst (accessor_move x)) = p \<and>
         state_of (fst (accessor_move x)) = locked \<and>
         state_of (snd (accessor_move x)) = unlocked \<and>
         accessor_dtor t (snd (accessor_move x)) h1 = Returns h1 \<and>
         accessor_dtor t (fst (accessor_move x)) h1 = Returns h \<and>
         state_of (fst (moves n x)) = locked \<and>
         length (snd (moves n x)) = n \<and>
         (\<forall>y \<in> set (snd (moves n x)). state_of y = unlocked) \<and>
         destroy_all t (snd (moves n x)) h1 = Returns h1 \<and>
         destroy_all t (fst (moves n x) # snd (moves n x)) h1 = Returns h \<and>
         destroy_all t (snd (moves n x) @ [fst (moves n x)]) h1 = Returns h"
proof -
  have lk: "accessor_lock x = \<lparr>pm = Some a, owns = True\<rparr>" "accessor_ptr x = p"
    using accessor_ctor_lock [OF assms] by simp_all
  have st: "state_of x = locked" using lk by (simp add: state_of_def)
  have dx: "accessor_dtor t x h1 = Returns h" by (rule accessor_ctor_dtor [OF assms])
  have same: "accessor_dtor t z h1 = Returns h" if "accessor_lock z = accessor_lock x" for z
    using dx that by (simp add: accessor_dtor_lock)
  have husks: "\<forall>y \<in> set (snd (moves n x)). state_of y = unlocked"
    using moves_state [of n x] by blast
  have dh: "destroy_all t (snd (moves n x)) h0 = Returns h0" for h0 :: "'a heap"
    by (rule destroy_all_unlocked [OF husks])
  have dl: "accessor_dtor t (fst (moves n x)) h1 = Returns h"
    using same moves_state [of n x] by blast
  have d1: "destroy_all t (fst (moves n x) # snd (moves n x)) h1 = Returns h"
    by (simp add: dl dh)
  have d2: "destroy_all t (snd (moves n x) @ [fst (moves n x)]) h1 = Returns h"
    by (simp add: destroy_all_append dh dl)
  show ?thesis
    using lk st same [of "fst (accessor_move x)"] accessor_move_lock [of x] state_of_move [of x]
      accessor_dtor_unlocked [of "snd (accessor_move x)" t h1] moves_state [of n x] husks
      dh [of h1] d1 d2
    by simp
qed

text \<open>
  \<^verbatim>\<open>tmp1\<close> of \<^verbatim>\<open>test_execute_around\<close>, on \<^verbatim>\<open>vecc(10, 10)\<close>, moved once and
  moved twice in a row.
\<close>

theorem move_transfers_the_lock_witness:
  "accessor_ctor Proxy_class 0 1 0
       \<lparr>objs = [1 \<mapsto> replicate 10 (10::int)], mtxs = [0 \<mapsto> Free], next_addr = 2\<rparr> =
     Returns (Proxy \<lparr>px_lock = \<lparr>pm = Some 0, owns = True\<rparr>, px_p = 1\<rparr>,
       \<lparr>objs = [1 \<mapsto> replicate 10 10], mtxs = [0 \<mapsto> Held 0 0], next_addr = 2\<rparr>) \<and>
   accessor_move (Proxy \<lparr>px_lock = \<lparr>pm = Some 0, owns = True\<rparr>, px_p = 1\<rparr>) =
     (Proxy \<lparr>px_lock = \<lparr>pm = Some 0, owns = True\<rparr>, px_p = 1\<rparr>,
      Proxy \<lparr>px_lock = \<lparr>pm = None, owns = False\<rparr>, px_p = 1\<rparr>) \<and>
   accessor_dtor 0 (Proxy \<lparr>px_lock = \<lparr>pm = None, owns = False\<rparr>, px_p = 1\<rparr>)
       \<lparr>objs = [1 \<mapsto> replicate 10 (10::int)], mtxs = [0 \<mapsto> Held 0 0], next_addr = 2\<rparr> =
     Returns \<lparr>objs = [1 \<mapsto> replicate 10 10], mtxs = [0 \<mapsto> Held 0 0], next_addr = 2\<rparr> \<and>
   accessor_dtor 0 (Proxy \<lparr>px_lock = \<lparr>pm = Some 0, owns = True\<rparr>, px_p = 1\<rparr>)
       \<lparr>objs = [1 \<mapsto> replicate 10 (10::int)], mtxs = [0 \<mapsto> Held 0 0], next_addr = 2\<rparr> =
     Returns \<lparr>objs = [1 \<mapsto> replicate 10 10], mtxs = [0 \<mapsto> Free], next_addr = 2\<rparr> \<and>
   destroy_all 0
       (snd (moves 2 (Proxy \<lparr>px_lock = \<lparr>pm = Some 0, owns = True\<rparr>, px_p = 1\<rparr>)) @
        [fst (moves 2 (Proxy \<lparr>px_lock = \<lparr>pm = Some 0, owns = True\<rparr>, px_p = 1\<rparr>))])
       \<lparr>objs = [1 \<mapsto> replicate 10 (10::int)], mtxs = [0 \<mapsto> Held 0 0], next_addr = 2\<rparr> =
     Returns \<lparr>objs = [1 \<mapsto> replicate 10 10], mtxs = [0 \<mapsto> Free], next_addr = 2\<rparr>"
proof -
  let ?h = "\<lparr>objs = [1 \<mapsto> replicate 10 (10::int)], mtxs = [0 \<mapsto> Free], next_addr = 2\<rparr>"
  let ?h1 = "\<lparr>objs = [1 \<mapsto> replicate 10 (10::int)], mtxs = [0 \<mapsto> Held 0 0], next_addr = 2\<rparr>"
  let ?x = "Proxy \<lparr>px_lock = \<lparr>pm = Some 0, owns = True\<rparr>, px_p = 1\<rparr>"
  have c: "accessor_ctor Proxy_class 0 1 0 ?h = Returns (?x, ?h1)"
    by (simp add: proxy_ctor_def unique_lock_ctor_def)
  show ?thesis
    using move_transfers_the_lock [OF c, of 2]
    by (simp add: proxy_ctor_def unique_lock_ctor_def proxy_move_def unique_lock_move_def
        proxy_dtor_def unique_lock_dtor_def numeral_2_eq_2)
qed


section \<open>Nested accessors of one thread\<close>

lemma nested_all:
  assumes "mtxs h a = Some m" and "owner m = None \<or> owner m = Some t"
    and "depth m + length cs \<le> max_level"
  shows "\<exists>xs h'. nested t p a cs h = Returns (xs, h') \<and> length xs = length cs \<and>
           (\<forall>x \<in> set xs. state_of x = locked \<and> accessor_ptr x = p) \<and>
           mtxs h' a = Some (if cs = [] then m else Held t (depth m + length cs - 1)) \<and>
           destroy_all t xs h' = Returns h"
  using assms
proof (induction cs arbitrary: h m)
  case Nil
  then show ?case by simp
next
  case (Cons c cs)
  let ?m' = "Held t (depth m)"
  let ?h1 = "h\<lparr>mtxs := (mtxs h)(a \<mapsto> ?m')\<rparr>"
  have lk: "mutex_lock t m = Returns ?m'"
    using Cons.prems(2,3) by (simp add: mutex_lock_Returns_iff)
  from accessor_ctor_acquired [OF Cons.prems(1) lk]
  obtain x where x: "accessor_ctor c t p a h = Returns (x, ?h1)" by blast
  have 1: "mtxs ?h1 a = Some ?m'" by simp
  have 2: "owner ?m' = None \<or> owner ?m' = Some t" by simp
  have 3: "depth ?m' + length cs \<le> max_level" using Cons.prems(3) by simp
  from Cons.IH [OF 1 2 3] obtain xs h'
    where xs: "nested t p a cs ?h1 = Returns (xs, h')" "length xs = length cs"
      "\<forall>x \<in> set xs. state_of x = locked \<and> accessor_ptr x = p"
      "mtxs h' a = Some (if cs = [] then ?m' else Held t (depth ?m' + length cs - 1))"
      "destroy_all t xs h' = Returns ?h1"
    by blast
  have n: "nested t p a (c # cs) h = Returns (xs @ [x], h')"
    using x xs(1) by simp
  have sx: "state_of x = locked \<and> accessor_ptr x = p"
    using accessor_ctor_lock [OF x] by (simp add: state_of_def)
  have d: "destroy_all t (xs @ [x]) h' = Returns h"
    using xs(5) accessor_ctor_dtor [OF x] by (simp add: destroy_all_append)
  have mt: "mtxs h' a = Some (Held t (depth m + length (c # cs) - 1))"
    using xs(4) by (cases cs) simp_all
  show ?case
    using n xs(2,3) sx d mt
    by (intro exI [of _ "xs @ [x]"] exI [of _ h']) auto
qed

lemma nested_thrown:
  assumes "mtxs h a = Some m" and "owner m = None \<or> owner m = Some t"
    and "depth m \<le> max_level" and "max_level < depth m + length cs"
  shows "nested t p a cs h = Throws"
  using assms
proof (induction cs arbitrary: h m)
  case Nil
  then show ?case by simp
next
  case (Cons c cs)
  show ?case
  proof (cases "depth m < max_level")
    case True
    let ?m' = "Held t (depth m)"
    let ?h1 = "h\<lparr>mtxs := (mtxs h)(a \<mapsto> ?m')\<rparr>"
    have lk: "mutex_lock t m = Returns ?m'"
      using Cons.prems(2) True by (simp add: mutex_lock_Returns_iff)
    from accessor_ctor_acquired [OF Cons.prems(1) lk]
    obtain x where x: "accessor_ctor c t p a h = Returns (x, ?h1)" by blast
    have 1: "mtxs ?h1 a = Some ?m'" by simp
    have 2: "owner ?m' = None \<or> owner ?m' = Some t" by simp
    have 3: "depth ?m' \<le> max_level" using True by simp
    have 4: "max_level < depth ?m' + length cs" using Cons.prems(4) by simp
    from Cons.IH [OF 1 2 3 4] x show ?thesis by simp
  next
    case False
    with Cons.prems(2) have "owner m = Some t \<and> max_level \<le> depth m"
      by (cases m) (simp_all add: max_level_def)
    then have "mutex_lock t m = Throws" by (simp add: mutex_lock_Throws_iff)
    from accessor_ctor_thrown [OF Cons.prems(1) this] show ?thesis by simp
  qed
qed

text \<open>
  C7, as the code has it. Let the mutex exist, be free or owned by thread \<open>t\<close>, and
  let \<open>t\<close> construct accessors of any classes \<open>cs\<close>, one after the other, on
  the value and the mutex of one wrapper, keeping them all. As long as this stays
  within the maximal level of ownership of the mutex, every constructor returns, every
  accessor is locked, the mutex is owned by \<open>t\<close> with one level per accessor, a
  thread other than \<open>t\<close> blocks as long as one of them lives, and destroying the
  accessors, the latest first, gives the mutex back as it was. Beyond the maximal
  level a constructor throws \<^verbatim>\<open>std::system_error\<close>.
\<close>

theorem nested_accessors_within_max_level:
  assumes "mtxs h a = Some m" and "owner m = None \<or> owner m = Some t"
    and "depth m \<le> max_level"
  shows "(depth m + length cs \<le> max_level \<longrightarrow>
           (\<exists>xs h'. nested t p a cs h = Returns (xs, h') \<and> length xs = length cs \<and>
              (\<forall>x \<in> set xs. state_of x = locked \<and> accessor_ptr x = p) \<and>
              mtxs h' a = Some (if cs = [] then m else Held t (depth m + length cs - 1)) \<and>
              (cs \<noteq> [] \<longrightarrow> (\<forall>u c. u \<noteq> t \<longrightarrow> accessor_ctor c u p a h' = Blocks)) \<and>
              destroy_all t xs h' = Returns h)) \<and>
         (max_level < depth m + length cs \<longrightarrow> nested t p a cs h = Throws)"
proof (intro conjI impI)
  assume b: "depth m + length cs \<le> max_level"
  from nested_all [OF assms(1,2) b, of p] obtain xs h'
    where xs: "nested t p a cs h = Returns (xs, h')" "length xs = length cs"
      "\<forall>x \<in> set xs. state_of x = locked \<and> accessor_ptr x = p"
      "mtxs h' a = Some (if cs = [] then m else Held t (depth m + length cs - 1))"
      "destroy_all t xs h' = Returns h"
    by blast
  have "accessor_ctor c u p a h' = Blocks" if "cs \<noteq> []" and "u \<noteq> t" for u c
    using xs(4) that by (auto simp: accessor_ctor_Blocks_iff)
  with xs show "\<exists>xs h'. nested t p a cs h = Returns (xs, h') \<and> length xs = length cs \<and>
      (\<forall>x \<in> set xs. state_of x = locked \<and> accessor_ptr x = p) \<and>
      mtxs h' a = Some (if cs = [] then m else Held t (depth m + length cs - 1)) \<and>
      (cs \<noteq> [] \<longrightarrow> (\<forall>u c. u \<noteq> t \<longrightarrow> accessor_ctor c u p a h' = Blocks)) \<and>
      destroy_all t xs h' = Returns h"
    by blast
next
  assume "max_level < depth m + length cs"
  from nested_thrown [OF assms this] show "nested t p a cs h = Throws" .
qed

text \<open>
  \<^verbatim>\<open>tmp1\<close> and \<^verbatim>\<open>tmp2\<close> of \<^verbatim>\<open>test_execute_around\<close>: thread 0 constructs two
  proxies on \<^verbatim>\<open>vecc(10, 10)\<close>, holds both, and destroys \<^verbatim>\<open>tmp2\<close>, then
  \<^verbatim>\<open>tmp1\<close>.
\<close>

theorem nested_accessors_within_max_level_witness:
  "nested 0 1 0 [Proxy_class, Proxy_class]
       \<lparr>objs = [1 \<mapsto> replicate 10 (10::int)], mtxs = [0 \<mapsto> Free], next_addr = 2\<rparr> =
     Returns ([Proxy \<lparr>px_lock = \<lparr>pm = Some 0, owns = True\<rparr>, px_p = 1\<rparr>,
               Proxy \<lparr>px_lock = \<lparr>pm = Some 0, owns = True\<rparr>, px_p = 1\<rparr>],
       \<lparr>objs = [1 \<mapsto> replicate 10 10], mtxs = [0 \<mapsto> Held 0 1], next_addr = 2\<rparr>) \<and>
   destroy_all 0 [Proxy \<lparr>px_lock = \<lparr>pm = Some 0, owns = True\<rparr>, px_p = 1\<rparr>,
                  Proxy \<lparr>px_lock = \<lparr>pm = Some 0, owns = True\<rparr>, px_p = 1\<rparr>]
       \<lparr>objs = [1 \<mapsto> replicate 10 (10::int)], mtxs = [0 \<mapsto> Held 0 1], next_addr = 2\<rparr> =
     Returns \<lparr>objs = [1 \<mapsto> replicate 10 10], mtxs = [0 \<mapsto> Free], next_addr = 2\<rparr> \<and>
   accessor_ctor Proxy_class 1 1 0
       \<lparr>objs = [1 \<mapsto> replicate 10 (10::int)], mtxs = [0 \<mapsto> Held 0 1], next_addr = 2\<rparr> = Blocks"
proof -
  let ?h = "\<lparr>objs = [1 \<mapsto> replicate 10 (10::int)], mtxs = [0 \<mapsto> Free], next_addr = 2\<rparr>"
  let ?x = "Proxy \<lparr>px_lock = \<lparr>pm = Some 0, owns = True\<rparr>, px_p = 1\<rparr>"
  let ?cs = "[Proxy_class, Proxy_class]"
  have 1: "mtxs ?h 0 = Some Free" by simp
  have 2: "owner Free = None \<or> owner Free = Some 0" by simp
  have 3: "depth Free \<le> max_level" by simp
  have 4: "depth Free + length ?cs \<le> max_level" by (simp add: max_level_def)
  let ?h1 = "\<lparr>objs = [1 \<mapsto> replicate 10 (10::int)], mtxs = [0 \<mapsto> Held 0 1], next_addr = 2\<rparr>"
  have n: "nested 0 1 0 ?cs ?h = Returns ([?x, ?x], ?h1)"
    by (simp add: proxy_ctor_def unique_lock_ctor_def max_level_def)
  from nested_accessors_within_max_level [OF 1 2 3, of ?cs 1] 4
  obtain xs h' where r: "nested 0 1 0 ?cs ?h = Returns (xs, h')"
    "destroy_all 0 xs h' = Returns ?h"
    "\<forall>u c. u \<noteq> 0 \<longrightarrow> accessor_ctor c u 1 0 h' = Blocks"
    by blast
  from r(1) n have e: "xs = [?x, ?x]" "h' = ?h1" by simp_all
  have d: "destroy_all 0 [?x, ?x] ?h1 = Returns ?h"
    using r(2) unfolding e .
  have "(1::nat) \<noteq> 0 \<longrightarrow> accessor_ctor Proxy_class 1 1 0 ?h1 = Blocks"
    using r(3) unfolding e by blast
  then have b: "accessor_ctor Proxy_class 1 1 0 ?h1 = Blocks" by simp
  show ?thesis
    using n d b by blast
qed

text \<open>
  The claim as stated fails at the maximal level of ownership. Thread 0 owns the mutex
  of \<^verbatim>\<open>vecc\<close> at level 4294967293 (it has locked it through \<^verbatim>\<open>get_mtx()\<close>) and
  constructs \<^verbatim>\<open>tmp1\<close>, \<^verbatim>\<open>tmp2\<close> and a third proxy: the first two constructors
  return, which brings the mutex to its maximal level, and the third throws
  \<^verbatim>\<open>std::system_error\<close>. So does one of 4294967296 nested proxies on the free
  mutex.
\<close>

theorem nested_accessors_past_max_level_counterexample:
  "nested 0 1 0 [Proxy_class, Proxy_class]
       \<lparr>objs = [1 \<mapsto> replicate 10 (10::int)], mtxs = [0 \<mapsto> Held 0 4294967292],
          next_addr = 2\<rparr> =
     Returns ([Proxy \<lparr>px_lock = \<lparr>pm = Some 0, owns = True\<rparr>, px_p = 1\<rparr>,
               Proxy \<lparr>px_lock = \<lparr>pm = Some 0, owns = True\<rparr>, px_p = 1\<rparr>],
       \<lparr>objs = [1 \<mapsto> replicate 10 10], mtxs = [0 \<mapsto> Held 0 4294967294], next_addr = 2\<rparr>) \<and>
   nested 0 1 0 [Proxy_class, Proxy_class, Proxy_class]
       \<lparr>objs = [1 \<mapsto> replicate 10 (10::int)], mtxs = [0 \<mapsto> Held 0 4294967292],
          next_addr = 2\<rparr> = Throws \<and>
   nested 0 1 0 (replicate 4294967296 Proxy_class)
       \<lparr>objs = [1 \<mapsto> replicate 10 (10::int)], mtxs = [0 \<mapsto> Free], next_addr = 2\<rparr> = Throws"
proof -
  let ?h = "\<lparr>objs = [1 \<mapsto> replicate 10 (10::int)], mtxs = [0 \<mapsto> Held 0 4294967292],
      next_addr = 2\<rparr>"
  let ?f = "\<lparr>objs = [1 \<mapsto> replicate 10 (10::int)], mtxs = [0 \<mapsto> Free], next_addr = 2\<rparr>"
  have 1: "mutex_lock 0 (Held 0 4294967292) = Returns (Held 0 4294967293)"
    by (simp add: max_level_def)
  have 2: "mutex_lock 0 (Held 0 4294967293) = Returns (Held 0 4294967294)"
    by (simp add: max_level_def)
  have 3: "mutex_lock 0 (Held 0 4294967294) = Throws"
    by (simp add: max_level_def)
  have a: "nested 0 1 0 [Proxy_class, Proxy_class] ?h =
      Returns ([Proxy \<lparr>px_lock = \<lparr>pm = Some 0, owns = True\<rparr>, px_p = 1\<rparr>,
                Proxy \<lparr>px_lock = \<lparr>pm = Some 0, owns = True\<rparr>, px_p = 1\<rparr>],
        \<lparr>objs = [1 \<mapsto> replicate 10 10], mtxs = [0 \<mapsto> Held 0 4294967294], next_addr = 2\<rparr>)"
    by (simp add: proxy_ctor_def unique_lock_ctor_def 1 2 del: mutex_lock.simps)
  have b: "nested 0 1 0 [Proxy_class, Proxy_class, Proxy_class] ?h = Throws"
    by (simp add: proxy_ctor_def unique_lock_ctor_def 1 2 3 del: mutex_lock.simps)
  have c: "nested 0 1 0 (replicate 4294967296 Proxy_class) ?f = Throws"
    by (rule nested_thrown [where m = Free]) (simp_all add: max_level_def)
  from a b c show ?thesis by blast
qed

text \<open>
  \<^verbatim>\<open>test_execute_around\<close> ends with the explicit destructor calls
  \<^verbatim>\<open>tmp2.~proxy()\<close> and \<^verbatim>\<open>tmp1.~proxy()\<close>, and the two objects, which are
  local variables, are destroyed once more when the function returns. The second
  destruction comes after the end of the object's life: whatever happened to the
  accessor before, the behaviour is undefined.
\<close>

lemma destroyed_twice: "life t (es @ [Destroyed, Destroyed]) x h = Undefined"
proof (induction es arbitrary: x)
  case Nil
  show ?case by simp
next
  case (Cons e es)
  then show ?case by (cases e) simp_all
qed

section \<open>The steps of func on the global map\<close>

lemma global_handle: "safe_map_strings_global = \<lparr>sp_ptr = 0, sp_mtx_ptr = 1\<rparr>"
  by (simp add: safe_map_strings_global_def safe_ptr_ctor_def map_ctor_def make_shared_def
      make_shared_mutex_def empty_heap_def)

lemma global_store: "global_heap = mk_store Map.empty Free"
  by (simp add: global_heap_def safe_ptr_ctor_def map_ctor_def make_shared_def
      make_shared_mutex_def empty_heap_def mk_store_def)

lemma global_copy: "safe_ptr_copy safe_map_strings_global = safe_map_strings_global"
  by (simp add: safe_ptr_copy_def)

text \<open>What the operations of the wrapper do to a store of this shape.\<close>

lemma star_mk_store:
  "safe_ptr_star t (Mutable safe_map_strings_global) (mk_store m x) =
     and_then (mutex_lock t x) (\<lambda>x'. Returns (Mutable the_obj, mk_store m x'))"
  by (cases "mutex_lock t x")
     (simp_all add: global_handle mk_store_def the_obj_def auto_lock_obj_t_ctor_def
        x_lock_t_def unique_lock_ctor_def)

lemma arrow_mk_store:
  "safe_ptr_arrow t (Mutable safe_map_strings_global) (mk_store m x) =
     and_then (mutex_lock t x) (\<lambda>x'. Returns (Mutable the_lock, mk_store m x'))"
  by (cases "mutex_lock t x")
     (simp_all add: global_handle mk_store_def the_lock_def auto_lock_t_ctor_def
        x_lock_t_def unique_lock_ctor_def)

lemma arrow_const_mk_store:
  "safe_ptr_arrow t (Const safe_map_strings_global) (mk_store m x) =
     and_then (mutex_lock t x) (\<lambda>x'. Returns (Const the_lock, mk_store m x'))"
  by (cases "mutex_lock t x")
     (simp_all add: global_handle mk_store_def the_lock_def auto_lock_t_ctor_def
        s_lock_t_def unique_lock_ctor_def)

lemma obj_dtor_mk_store:
  "auto_lock_obj_t_dtor t the_obj (mk_store m x) =
     and_then (mutex_unlock t x) (\<lambda>x'. Returns (mk_store m x'))"
  by (cases "mutex_unlock t x")
     (simp_all add: mk_store_def the_obj_def auto_lock_obj_t_dtor_def unique_lock_dtor_def)

lemma lock_dtor_mk_store:
  "auto_lock_t_dtor t the_lock (mk_store m x) =
     and_then (mutex_unlock t x) (\<lambda>x'. Returns (mk_store m x'))"
  by (cases "mutex_unlock t x")
     (simp_all add: mk_store_def the_lock_def auto_lock_t_dtor_def unique_lock_dtor_def)

lemma index_mk_store:
  "auto_lock_obj_t_index sub (Mutable the_obj) k (mk_store m x) =
     Returns (fst (sub k m), mk_store (snd (sub k m)) x)"
  by (simp add: mk_store_def the_obj_def)

lemma call_mutable_mk_store:
  "call (auto_lock_t_arrow (Mutable the_lock)) (Member g) (mk_store m x) =
     Returns (fst (g m), mk_store (snd (g m)) x)"
  by (simp add: mk_store_def the_lock_def)

lemma call_const_mk_store:
  "call (auto_lock_t_arrow (Const the_lock)) (Const_member f) (mk_store m x) =
     Returns (f m, mk_store m x)"
  by (simp add: mk_store_def the_lock_def)

lemma elem_read_mk_store:
  "elem_read (0, k) (mk_store m x) = (case m k of None \<Rightarrow> Undefined | Some e \<Rightarrow> Returns e)"
  by (simp add: elem_read_def mk_store_def)

lemma elem_update_mk_store:
  "elem_update (0, k) f (mk_store m x) =
     (case m k of None \<Rightarrow> Undefined | Some e \<Rightarrow> Returns (mk_store (m(k \<mapsto> f e)) x))"
  by (simp add: elem_update_def mk_store_def split: option.splits)

lemma the_obj_ptr: "alo_ptr the_obj = 0"
  by (simp add: the_obj_def)

lemma the_lock_ptr: "al_ptr the_lock = 0"
  by (simp add: the_lock_def)

lemmas on_mk_store =
  star_mk_store arrow_mk_store arrow_const_mk_store obj_dtor_mk_store lock_dtor_mk_store
  index_mk_store call_mutable_mk_store call_const_mk_store elem_read_mk_store
  elem_update_mk_store the_obj_ptr the_lock_ptr global_copy

lemma set_thread_simps:
  "store (set_thread t th h s) = h"
  "threads (set_thread t th h s) = (threads s)(t := th)"
  "the_map (set_thread t th (mk_store m x) s) = m"
  "the_mutex (set_thread t th (mk_store m x) s) = x"
  "store_ok (set_thread t th (mk_store m x) s)"
  by (simp_all add: set_thread_def the_map_def the_mutex_def mk_store_def store_ok_def)

lemma set_thread_same:
  "store s = h \<Longrightarrow> the_map (set_thread t th h s) = the_map s"
  "store s = h \<Longrightarrow> the_mutex (set_thread t th h s) = the_mutex s"
  by (simp_all add: set_thread_def the_map_def the_mutex_def)


section \<open>Keeping the invariant\<close>

lemma sum_update_fun:
  fixes g :: "'b \<Rightarrow> nat" and F :: "nat \<Rightarrow> 'b"
  assumes "t < N"
  shows "(\<Sum>u < N. g ((F(t := x)) u)) + g (F t) = (\<Sum>u < N. g (F u)) + g x"
proof -
  have fin: "finite {..<N}" and mem: "t \<in> {..<N}" using assms by simp_all
  have 1: "(\<Sum>u < N. g ((F(t := x)) u)) =
      g ((F(t := x)) t) + (\<Sum>u \<in> {..<N} - {t}. g ((F(t := x)) u))"
    by (rule sum.remove [OF fin mem])
  have 2: "(\<Sum>u < N. g (F u)) = g (F t) + (\<Sum>u \<in> {..<N} - {t}. g (F u))"
    by (rule sum.remove [OF fin mem])
  have 3: "(\<Sum>u \<in> {..<N} - {t}. g ((F(t := x)) u)) = (\<Sum>u \<in> {..<N} - {t}. g (F u))"
    by (rule sum.cong) auto
  show ?thesis using 1 2 3 by simp
qed

lemma total_set_thread:
  assumes "t < N"
  shows "total N (set_thread t th' h s) n + incs n (at_pc (threads s t)) (var_i (threads s t)) =
         total N s n + incs n (at_pc th') (var_i th')"
  using sum_update_fun [OF assms, of "\<lambda>th. incs n (at_pc th) (var_i th)" "threads s" th']
  by (simp only: total_def set_thread_simps)

lemma work_left_set_thread:
  assumes "t < N"
  shows "work_left K N (set_thread t th' h s) +
           steps_left K (at_pc (threads s t)) (var_i (threads s t)) =
         work_left K N s + steps_left K (at_pc th') (var_i th')"
  using sum_update_fun [OF assms, of "\<lambda>th. steps_left K (at_pc th) (var_i th)" "threads s" th']
  by (simp only: work_left_def set_thread_simps)

lemma mutex_ok_exclusive:
  assumes "mutex_ok N s" and "t < N" and "u < N" and "u \<noteq> t"
    and "0 < holds (at_pc (threads s t))"
  shows "holds (at_pc (threads s u)) = 0"
proof (cases "the_mutex s")
  case Free
  with assms show ?thesis by (simp add: mutex_ok_def)
next
  case (Held v n)
  with assms(1) have v: "\<forall>w < N. w \<noteq> v \<longrightarrow> holds (at_pc (threads s w)) = 0"
    by (simp add: mutex_ok_def)
  with assms(2,5) have "v = t" by auto
  with v assms(3,4) show ?thesis by simp
qed

lemma mutex_ok_set_thread:
  assumes "mutex_ok N s" and "t < N"
    and "(x' = the_mutex s \<and> holds (at_pc th') = holds (at_pc (threads s t))) \<or>
         (mutex_lock t (the_mutex s) = Returns x' \<and>
            holds (at_pc th') = Suc (holds (at_pc (threads s t)))) \<or>
         (mutex_unlock t (the_mutex s) = Returns x' \<and>
            holds (at_pc (threads s t)) = Suc (holds (at_pc th')))"
  shows "mutex_ok N (set_thread t th' (mk_store m' x') s)"
proof (cases "the_mutex s")
  case Free
  with assms show ?thesis
    by (auto simp: mutex_ok_def set_thread_simps)
next
  case (Held u n)
  with assms show ?thesis
    by (cases n) (auto simp: mutex_ok_def set_thread_simps split: if_splits)
qed

lemma inv_set_thread:
  assumes I: "inv K N s" and t: "t < N"
    and L: "local_ok K th'"
    and X: "(x' = the_mutex s \<and> holds (at_pc th') = holds (at_pc (threads s t))) \<or>
            (mutex_lock t (the_mutex s) = Returns x' \<and>
               holds (at_pc th') = Suc (holds (at_pc (threads s t)))) \<or>
            (mutex_unlock t (the_mutex s) = Returns x' \<and>
               holds (at_pc (threads s t)) = Suc (holds (at_pc th')))"
    and C: "\<And>n. counter m' n + int (incs n (at_pc (threads s t)) (var_i (threads s t))) =
              counter (the_map s) n + int (incs n (at_pc th') (var_i th'))"
    and M1: "\<And>n. the_map s (key_of n) \<noteq> None \<Longrightarrow> m' (key_of n) \<noteq> None"
    and M2: "\<And>n c. the_map s (key_of n) = Some (kind_of n, c) \<Longrightarrow>
              \<exists>c'. m' (key_of n) = Some (kind_of n, c')"
    and T1: "\<And>n. inserted n (at_pc th') \<Longrightarrow> m' (key_of n) \<noteq> None"
    and T2: "\<And>n. assigned n (at_pc th') \<Longrightarrow> \<exists>c. m' (key_of n) = Some (kind_of n, c)"
    and T3: "\<And>n. at_pc th' = Inc_store n \<Longrightarrow> tmp_val th' = counter m' n"
    and O: "m' = the_map s \<or> 0 < holds (at_pc (threads s t))"
    and D: "dom m' \<subseteq> {''apple'', ''potato''}"
  shows "inv K N (set_thread t th' (mk_store m' x') s)"
proof -
  let ?s' = "set_thread t th' (mk_store m' x') s"
  from I have loc: "\<forall>u < N. local_ok K (threads s u)" and mx: "mutex_ok N s"
    and dat: "data_ok N s"
    by (simp_all add: inv_def)
  have 1: "store_ok ?s'" by (simp add: set_thread_simps)
  have 2: "\<forall>u < N. local_ok K (threads ?s' u)"
    using loc L by (simp add: set_thread_simps)
  have 3: "mutex_ok N ?s'" by (rule mutex_ok_set_thread [OF mx t X])
  have cnt: "counter m' n = int (total N ?s' n)" for n
  proof -
    have "counter (the_map s) n = int (total N s n)" using dat by (simp add: data_ok_def)
    with C [of n] total_set_thread [OF t, of th' "mk_store m' x'" s n] show ?thesis
      by linarith
  qed
  have ins: "m' (key_of n) \<noteq> None" if "u < N" "inserted n (at_pc (threads ?s' u))" for u n
  proof (cases "u = t")
    case True
    with that T1 [of n] show ?thesis by (simp add: set_thread_simps)
  next
    case False
    with that have "u < N" "inserted n (at_pc (threads s u))"
      by (simp_all add: set_thread_simps)
    with dat have "the_map s (key_of n) \<noteq> None"
      unfolding data_ok_def by blast
    then show ?thesis by (rule M1)
  qed
  have asg: "\<exists>c. m' (key_of n) = Some (kind_of n, c)"
    if "u < N" "assigned n (at_pc (threads ?s' u))" for u n
  proof (cases "u = t")
    case True
    with that T2 [of n] show ?thesis by (simp add: set_thread_simps)
  next
    case False
    with that have "u < N" "assigned n (at_pc (threads s u))"
      by (simp_all add: set_thread_simps)
    with dat obtain c where "the_map s (key_of n) = Some (kind_of n, c)"
      unfolding data_ok_def by blast
    then show ?thesis by (rule M2)
  qed
  have val: "tmp_val (threads ?s' u) = counter m' n"
    if "u < N" "at_pc (threads ?s' u) = Inc_store n" for u n
  proof (cases "u = t")
    case True
    with that T3 [of n] show ?thesis by (simp add: set_thread_simps)
  next
    case False
    with that have at: "at_pc (threads s u) = Inc_store n" by (simp add: set_thread_simps)
    then have h: "holds (at_pc (threads s u)) = 1" by simp
    have "\<not> 0 < holds (at_pc (threads s t))"
      using mutex_ok_exclusive [OF mx t that(1) False] h by auto
    with O have "m' = the_map s" by simp
    with at that(1) dat False show ?thesis
      by (auto simp: data_ok_def set_thread_simps)
  qed
  have 4: "data_ok N ?s'"
    unfolding data_ok_def using cnt ins asg val D
    by (simp add: set_thread_simps)
  show ?thesis using 1 2 3 4 by (simp add: inv_def)
qed


text \<open>The same, with a premise for each of the two counters.\<close>

lemma inv_set_thread2:
  assumes I: "inv K N s" and t: "t < N"
    and L: "local_ok K th'"
    and X: "(x' = the_mutex s \<and> holds (at_pc th') = holds (at_pc (threads s t))) \<or>
            (mutex_lock t (the_mutex s) = Returns x' \<and>
               holds (at_pc th') = Suc (holds (at_pc (threads s t)))) \<or>
            (mutex_unlock t (the_mutex s) = Returns x' \<and>
               holds (at_pc (threads s t)) = Suc (holds (at_pc th')))"
    and Ca: "counter m' Apple + int (incs Apple (at_pc (threads s t)) (var_i (threads s t))) =
              counter (the_map s) Apple + int (incs Apple (at_pc th') (var_i th'))"
    and Cp: "counter m' Potato + int (incs Potato (at_pc (threads s t)) (var_i (threads s t))) =
              counter (the_map s) Potato + int (incs Potato (at_pc th') (var_i th'))"
    and M1a: "the_map s ''apple'' \<noteq> None \<Longrightarrow> m' ''apple'' \<noteq> None"
    and M1p: "the_map s ''potato'' \<noteq> None \<Longrightarrow> m' ''potato'' \<noteq> None"
    and M2a: "\<And>c. the_map s ''apple'' = Some (''fruit'', c) \<Longrightarrow>
              \<exists>c'. m' ''apple'' = Some (''fruit'', c')"
    and M2p: "\<And>c. the_map s ''potato'' = Some (''vegetable'', c) \<Longrightarrow>
              \<exists>c'. m' ''potato'' = Some (''vegetable'', c')"
    and T1a: "inserted Apple (at_pc th') \<Longrightarrow> m' ''apple'' \<noteq> None"
    and T1p: "inserted Potato (at_pc th') \<Longrightarrow> m' ''potato'' \<noteq> None"
    and T2a: "assigned Apple (at_pc th') \<Longrightarrow> \<exists>c. m' ''apple'' = Some (''fruit'', c)"
    and T2p: "assigned Potato (at_pc th') \<Longrightarrow> \<exists>c. m' ''potato'' = Some (''vegetable'', c)"
    and T3a: "at_pc th' = Inc_store Apple \<Longrightarrow> tmp_val th' = counter m' Apple"
    and T3p: "at_pc th' = Inc_store Potato \<Longrightarrow> tmp_val th' = counter m' Potato"
    and O: "m' = the_map s \<or> 0 < holds (at_pc (threads s t))"
    and D: "dom m' \<subseteq> {''apple'', ''potato''}"
  shows "inv K N (set_thread t th' (mk_store m' x') s)"
proof (rule inv_set_thread [OF I t L X _ _ _ _ _ _ O D])
  fix n
  show "counter m' n + int (incs n (at_pc (threads s t)) (var_i (threads s t))) =
      counter (the_map s) n + int (incs n (at_pc th') (var_i th'))"
    using Ca Cp by (cases n) simp_all
  show "the_map s (key_of n) \<noteq> None \<Longrightarrow> m' (key_of n) \<noteq> None"
    using M1a M1p by (cases n) simp_all
  show "\<exists>c'. m' (key_of n) = Some (kind_of n, c')"
    if "the_map s (key_of n) = Some (kind_of n, c)" for c
    using that M2a [of c] M2p [of c] by (cases n) simp_all
  show "inserted n (at_pc th') \<Longrightarrow> m' (key_of n) \<noteq> None"
    using T1a T1p by (cases n) simp_all
  show "assigned n (at_pc th') \<Longrightarrow> \<exists>c. m' (key_of n) = Some (kind_of n, c)"
    using T2a T2p by (cases n) simp_all
  show "at_pc th' = Inc_store n \<Longrightarrow> tmp_val th' = counter m' n"
    using T3a T3p by (cases n) simp_all
qed

lemma inv_facts:
  assumes "inv K N s" and "t < N"
  shows "store s = mk_store (the_map s) (the_mutex s)"
    and "arg_safe_map_strings (threads s t) = safe_map_strings_global"
    and "locals_at K (at_pc (threads s t)) (threads s t)"
    and "inserted Apple (at_pc (threads s t)) \<Longrightarrow> the_map s ''apple'' \<noteq> None"
    and "inserted Potato (at_pc (threads s t)) \<Longrightarrow> the_map s ''potato'' \<noteq> None"
    and "assigned Apple (at_pc (threads s t)) \<Longrightarrow> \<exists>c. the_map s ''apple'' = Some (''fruit'', c)"
    and "assigned Potato (at_pc (threads s t)) \<Longrightarrow>
           \<exists>c. the_map s ''potato'' = Some (''vegetable'', c)"
    and "at_pc (threads s t) = Inc_store Apple \<Longrightarrow>
           tmp_val (threads s t) = counter (the_map s) Apple"
    and "at_pc (threads s t) = Inc_store Potato \<Longrightarrow>
           tmp_val (threads s t) = counter (the_map s) Potato"
    and "dom (the_map s) \<subseteq> {''apple'', ''potato''}"
proof -
  from assms have d: "data_ok N s" and l: "local_ok K (threads s t)" and st: "store_ok s"
    by (simp_all add: inv_def)
  show "store s = mk_store (the_map s) (the_mutex s)" using st by (simp add: store_ok_def)
  show "arg_safe_map_strings (threads s t) = safe_map_strings_global"
    and "locals_at K (at_pc (threads s t)) (threads s t)"
    using l by (simp_all add: local_ok_def)
  from d assms(2)
  have a: "\<And>n. inserted n (at_pc (threads s t)) \<Longrightarrow> the_map s (key_of n) \<noteq> None"
    and b: "\<And>n. assigned n (at_pc (threads s t)) \<Longrightarrow>
          \<exists>c. the_map s (key_of n) = Some (kind_of n, c)"
    and c: "\<And>n. at_pc (threads s t) = Inc_store n \<Longrightarrow>
          tmp_val (threads s t) = counter (the_map s) n"
    unfolding data_ok_def by blast+
  show "inserted Apple (at_pc (threads s t)) \<Longrightarrow> the_map s ''apple'' \<noteq> None"
    using a [of Apple] by simp
  show "inserted Potato (at_pc (threads s t)) \<Longrightarrow> the_map s ''potato'' \<noteq> None"
    using a [of Potato] by simp
  show "assigned Apple (at_pc (threads s t)) \<Longrightarrow> \<exists>c. the_map s ''apple'' = Some (''fruit'', c)"
    using b [of Apple] by simp
  show "assigned Potato (at_pc (threads s t)) \<Longrightarrow>
      \<exists>c. the_map s ''potato'' = Some (''vegetable'', c)"
    using b [of Potato] by simp
  show "at_pc (threads s t) = Inc_store Apple \<Longrightarrow>
      tmp_val (threads s t) = counter (the_map s) Apple"
    using c [of Apple] by simp
  show "at_pc (threads s t) = Inc_store Potato \<Longrightarrow>
      tmp_val (threads s t) = counter (the_map s) Potato"
    using c [of Potato] by simp
  show "dom (the_map s) \<subseteq> {''apple'', ''potato''}"
    using d by (simp add: data_ok_def)
qed

lemmas wrapper_simps =
  safe_ptr_star.simps safe_ptr_arrow.simps auto_lock_obj_t_index.simps call.simps
  auto_lock_t_arrow.simps


text \<open>
  Every step of a thread keeps the invariant, is one step less to go, and changes the
  map only if the thread holds an accessor: one lemma for each kind of step.
\<close>

lemma step_Set_acquire:
  assumes I: "inv K N s" and t: "t < N" and S: "func_step K t s = Returns s'"
    and pc: "at_pc (threads s t) = Set_acquire n"
  shows "inv K N s' \<and>
         Suc (steps_left K (at_pc (threads s' t)) (var_i (threads s' t))) =
           steps_left K (at_pc (threads s t)) (var_i (threads s t)) \<and>
         (the_map s' = the_map s \<or> 0 < holds (at_pc (threads s t)))"
proof -
  note f = inv_facts [OF I t]
  from S pc f(1,2,3) obtain x' where lk: "mutex_lock t (the_mutex s) = Returns x'"
    and s': "s' = set_thread t
        ((threads s t)\<lparr>at_pc := Set_index n, tmp_obj := Some (Mutable the_obj)\<rparr>)
        (mk_store (the_map s) x') s"
    by (auto simp: func_step_def on_mk_store and_then_Returns_iff Let_def
        simp del: wrapper_simps)
  have "inv K N s'"
    unfolding s'
    by (rule inv_set_thread2 [OF I t]; insert pc f lk; cases n; simp add: local_ok_def)
  moreover have "Suc (steps_left K (at_pc (threads s' t)) (var_i (threads s' t))) =
      steps_left K (at_pc (threads s t)) (var_i (threads s t))"
    unfolding s' using pc f(3) by (cases n) (simp_all add: set_thread_simps)
  moreover have "the_map s' = the_map s \<or> 0 < holds (at_pc (threads s t))"
    unfolding s' using pc by (simp add: set_thread_simps)
  ultimately show ?thesis by simp
qed

lemma step_Set_index:
  assumes I: "inv K N s" and t: "t < N" and S: "func_step K t s = Returns s'"
    and pc: "at_pc (threads s t) = Set_index n"
  shows "inv K N s' \<and>
         Suc (steps_left K (at_pc (threads s' t)) (var_i (threads s' t))) =
           steps_left K (at_pc (threads s t)) (var_i (threads s t)) \<and>
         (the_map s' = the_map s \<or> 0 < holds (at_pc (threads s t)))"
proof -
  note f = inv_facts [OF I t]
  from S pc f(1,2,3)
  have s': "s' = set_thread t
        ((threads s t)\<lparr>at_pc := Set_assign n, tmp_ref := Some (0, key_of n)\<rparr>)
        (mk_store (snd (map_subscript (key_of n) (the_map s))) (the_mutex s)) s"
    by (auto simp: func_step_def on_mk_store and_then_Returns_iff Let_def map_subscript_def
        simp del: wrapper_simps)
  have "inv K N s'"
    unfolding s'
    by (rule inv_set_thread2 [OF I t]; insert pc f; cases n;
        auto simp: local_ok_def map_subscript_def counter_def split: option.splits)
  moreover have "Suc (steps_left K (at_pc (threads s' t)) (var_i (threads s' t))) =
      steps_left K (at_pc (threads s t)) (var_i (threads s t))"
    unfolding s' using pc f(3) by (cases n) (simp_all add: set_thread_simps)
  moreover have "the_map s' = the_map s \<or> 0 < holds (at_pc (threads s t))"
    unfolding s' using pc by (simp add: set_thread_simps)
  ultimately show ?thesis by simp
qed

lemma step_Set_assign:
  assumes I: "inv K N s" and t: "t < N" and S: "func_step K t s = Returns s'"
    and pc: "at_pc (threads s t) = Set_assign n"
  shows "inv K N s' \<and>
         Suc (steps_left K (at_pc (threads s' t)) (var_i (threads s' t))) =
           steps_left K (at_pc (threads s t)) (var_i (threads s t)) \<and>
         (the_map s' = the_map s \<or> 0 < holds (at_pc (threads s t)))"
proof -
  note f = inv_facts [OF I t]
  from S pc f(1,2,3) obtain e where e: "the_map s (key_of n) = Some e"
    and s': "s' = set_thread t ((threads s t)\<lparr>at_pc := Set_release n\<rparr>)
        (mk_store ((the_map s)(key_of n \<mapsto> (kind_of n, snd e))) (the_mutex s)) s"
    by (auto simp: func_step_def on_mk_store and_then_Returns_iff Let_def
        simp del: wrapper_simps split: option.splits)
  have "inv K N s'"
    unfolding s'
    by (rule inv_set_thread2 [OF I t]; insert pc f e; cases n;
        auto simp: local_ok_def counter_def split: option.splits)
  moreover have "Suc (steps_left K (at_pc (threads s' t)) (var_i (threads s' t))) =
      steps_left K (at_pc (threads s t)) (var_i (threads s t))"
    unfolding s' using pc f(3) by (cases n) (simp_all add: set_thread_simps)
  moreover have "the_map s' = the_map s \<or> 0 < holds (at_pc (threads s t))"
    unfolding s' using pc by (simp add: set_thread_simps)
  ultimately show ?thesis by simp
qed

lemma step_Set_release:
  assumes I: "inv K N s" and t: "t < N" and S: "func_step K t s = Returns s'"
    and pc: "at_pc (threads s t) = Set_release n"
  shows "inv K N s' \<and>
         Suc (steps_left K (at_pc (threads s' t)) (var_i (threads s' t))) =
           steps_left K (at_pc (threads s t)) (var_i (threads s t)) \<and>
         (the_map s' = the_map s \<or> 0 < holds (at_pc (threads s t)))"
proof -
  note f = inv_facts [OF I t]
  from S pc f(1,2,3) obtain x' where lk: "mutex_unlock t (the_mutex s) = Returns x'"
    and s': "s' = set_thread t
        ((threads s t)\<lparr>at_pc := (case n of Apple \<Rightarrow> Set_acquire Potato | Potato \<Rightarrow> Loop_test),
            tmp_obj := None, tmp_ref := None\<rparr>)
        (mk_store (the_map s) x') s"
    by (auto simp: func_step_def on_mk_store and_then_Returns_iff Let_def
        simp del: wrapper_simps)
  have "inv K N s'"
    unfolding s'
    by (rule inv_set_thread2 [OF I t]; insert pc f lk; cases n; simp add: local_ok_def)
  moreover have "Suc (steps_left K (at_pc (threads s' t)) (var_i (threads s' t))) =
      steps_left K (at_pc (threads s t)) (var_i (threads s t))"
    unfolding s' using pc f(3) by (cases n) (simp_all add: set_thread_simps)
  moreover have "the_map s' = the_map s \<or> 0 < holds (at_pc (threads s t))"
    unfolding s' using pc by (simp add: set_thread_simps)
  ultimately show ?thesis by simp
qed

lemma step_Loop_test:
  assumes I: "inv K N s" and t: "t < N" and S: "func_step K t s = Returns s'"
    and pc: "at_pc (threads s t) = Loop_test"
  shows "inv K N s' \<and>
         Suc (steps_left K (at_pc (threads s' t)) (var_i (threads s' t))) =
           steps_left K (at_pc (threads s t)) (var_i (threads s t)) \<and>
         (the_map s' = the_map s \<or> 0 < holds (at_pc (threads s t)))"
proof -
  note f = inv_facts [OF I t]
  from S pc f(1,2,3)
  have s': "s' = set_thread t
        ((threads s t)\<lparr>at_pc :=
            (if var_i (threads s t) < K then Inc_acquire Apple else Copy_handle)\<rparr>)
        (mk_store (the_map s) (the_mutex s)) s"
    by (auto simp: func_step_def Let_def)
  have "inv K N s'"
    unfolding s'
    by (rule inv_set_thread2 [OF I t]; insert pc f; auto simp: local_ok_def split: if_splits)
  moreover have "Suc (steps_left K (at_pc (threads s' t)) (var_i (threads s' t))) =
      steps_left K (at_pc (threads s t)) (var_i (threads s t))"
    unfolding s' using pc f(3) by (auto simp: set_thread_simps)
  moreover have "the_map s' = the_map s \<or> 0 < holds (at_pc (threads s t))"
    unfolding s' using pc by (simp add: set_thread_simps)
  ultimately show ?thesis by simp
qed

lemma step_Inc_acquire:
  assumes I: "inv K N s" and t: "t < N" and S: "func_step K t s = Returns s'"
    and pc: "at_pc (threads s t) = Inc_acquire n"
  shows "inv K N s' \<and>
         Suc (steps_left K (at_pc (threads s' t)) (var_i (threads s' t))) =
           steps_left K (at_pc (threads s t)) (var_i (threads s t)) \<and>
         (the_map s' = the_map s \<or> 0 < holds (at_pc (threads s t)))"
proof -
  note f = inv_facts [OF I t]
  from S pc f(1,2,3) obtain x' where lk: "mutex_lock t (the_mutex s) = Returns x'"
    and s': "s' = set_thread t
        ((threads s t)\<lparr>at_pc := Inc_lookup n, tmp_locks := [Mutable the_lock]\<rparr>)
        (mk_store (the_map s) x') s"
    by (auto simp: func_step_def on_mk_store and_then_Returns_iff Let_def
        simp del: wrapper_simps)
  have "inv K N s'"
    unfolding s'
    by (rule inv_set_thread2 [OF I t]; insert pc f lk; cases n; simp add: local_ok_def)
  moreover have "Suc (steps_left K (at_pc (threads s' t)) (var_i (threads s' t))) =
      steps_left K (at_pc (threads s t)) (var_i (threads s t))"
    unfolding s' using pc f(3) by (cases n) (simp_all add: set_thread_simps)
  moreover have "the_map s' = the_map s \<or> 0 < holds (at_pc (threads s t))"
    unfolding s' using pc by (simp add: set_thread_simps)
  ultimately show ?thesis by simp
qed

lemma step_Inc_lookup:
  assumes I: "inv K N s" and t: "t < N" and S: "func_step K t s = Returns s'"
    and pc: "at_pc (threads s t) = Inc_lookup n"
  shows "inv K N s' \<and>
         Suc (steps_left K (at_pc (threads s' t)) (var_i (threads s' t))) =
           steps_left K (at_pc (threads s t)) (var_i (threads s t)) \<and>
         (the_map s' = the_map s \<or> 0 < holds (at_pc (threads s t)))"
proof -
  note f = inv_facts [OF I t]
  from S pc f(1-5)
  have s': "s' = set_thread t
        ((threads s t)\<lparr>at_pc := Inc_load n, tmp_ref := Some (0, key_of n)\<rparr>)
        (mk_store (the_map s) (the_mutex s)) s"
    by (cases n)
       (auto simp: func_step_def on_mk_store and_then_Returns_iff Let_def map_at_def
          map_find_def simp del: wrapper_simps split: option.splits)
  have "inv K N s'"
    unfolding s'
    by (rule inv_set_thread2 [OF I t]; insert pc f; cases n; simp add: local_ok_def)
  moreover have "Suc (steps_left K (at_pc (threads s' t)) (var_i (threads s' t))) =
      steps_left K (at_pc (threads s t)) (var_i (threads s t))"
    unfolding s' using pc f(3) by (cases n) (simp_all add: set_thread_simps)
  moreover have "the_map s' = the_map s \<or> 0 < holds (at_pc (threads s t))"
    unfolding s' using pc by (simp add: set_thread_simps)
  ultimately show ?thesis by simp
qed

lemma step_Inc_load:
  assumes I: "inv K N s" and t: "t < N" and S: "func_step K t s = Returns s'"
    and pc: "at_pc (threads s t) = Inc_load n"
  shows "inv K N s' \<and>
         Suc (steps_left K (at_pc (threads s' t)) (var_i (threads s' t))) =
           steps_left K (at_pc (threads s t)) (var_i (threads s t)) \<and>
         (the_map s' = the_map s \<or> 0 < holds (at_pc (threads s t)))"
proof -
  note f = inv_facts [OF I t]
  from S pc f(1,2,3) obtain e where e: "the_map s (key_of n) = Some e"
    and s': "s' = set_thread t ((threads s t)\<lparr>at_pc := Inc_store n, tmp_val := snd e\<rparr>)
        (mk_store (the_map s) (the_mutex s)) s"
    by (auto simp: func_step_def on_mk_store and_then_Returns_iff Let_def
        simp del: wrapper_simps split: option.splits)
  have "inv K N s'"
    unfolding s'
    by (rule inv_set_thread2 [OF I t]; insert pc f e; cases n;
        auto simp: local_ok_def counter_def)
  moreover have "Suc (steps_left K (at_pc (threads s' t)) (var_i (threads s' t))) =
      steps_left K (at_pc (threads s t)) (var_i (threads s t))"
    unfolding s' using pc f(3) by (cases n) (simp_all add: set_thread_simps)
  moreover have "the_map s' = the_map s \<or> 0 < holds (at_pc (threads s t))"
    unfolding s' using pc by (simp add: set_thread_simps)
  ultimately show ?thesis by simp
qed

lemma step_Inc_store:
  assumes I: "inv K N s" and t: "t < N" and S: "func_step K t s = Returns s'"
    and pc: "at_pc (threads s t) = Inc_store n"
  shows "inv K N s' \<and>
         Suc (steps_left K (at_pc (threads s' t)) (var_i (threads s' t))) =
           steps_left K (at_pc (threads s t)) (var_i (threads s t)) \<and>
         (the_map s' = the_map s \<or> 0 < holds (at_pc (threads s t)))"
proof -
  note f = inv_facts [OF I t]
  from S pc f(1,2,3) obtain e where e: "the_map s (key_of n) = Some e"
    and s': "s' = set_thread t ((threads s t)\<lparr>at_pc := Inc_release n\<rparr>)
        (mk_store ((the_map s)(key_of n \<mapsto> (fst e, tmp_val (threads s t) + 1)))
           (the_mutex s)) s"
    by (auto simp: func_step_def on_mk_store and_then_Returns_iff Let_def
        simp del: wrapper_simps split: option.splits if_splits)
  have "inv K N s'"
    unfolding s'
    by (rule inv_set_thread2 [OF I t]; insert pc f e; cases n;
        auto simp: local_ok_def counter_def split: option.splits)
  moreover have "Suc (steps_left K (at_pc (threads s' t)) (var_i (threads s' t))) =
      steps_left K (at_pc (threads s t)) (var_i (threads s t))"
    unfolding s' using pc f(3) by (cases n) (simp_all add: set_thread_simps)
  moreover have "the_map s' = the_map s \<or> 0 < holds (at_pc (threads s t))"
    unfolding s' using pc by (simp add: set_thread_simps)
  ultimately show ?thesis by simp
qed

lemma step_Inc_release:
  assumes I: "inv K N s" and t: "t < N" and S: "func_step K t s = Returns s'"
    and pc: "at_pc (threads s t) = Inc_release n"
  shows "inv K N s' \<and>
         Suc (steps_left K (at_pc (threads s' t)) (var_i (threads s' t))) =
           steps_left K (at_pc (threads s t)) (var_i (threads s t)) \<and>
         (the_map s' = the_map s \<or> 0 < holds (at_pc (threads s t)))"
proof -
  note f = inv_facts [OF I t]
  from S pc f(1,2,3) obtain x' where lk: "mutex_unlock t (the_mutex s) = Returns x'"
    and s': "s' = set_thread t
        ((threads s t)\<lparr>at_pc := (case n of Apple \<Rightarrow> Inc_acquire Potato | Potato \<Rightarrow> Loop_incr),
            tmp_locks := [], tmp_ref := None\<rparr>)
        (mk_store (the_map s) x') s"
    by (auto simp: func_step_def on_mk_store and_then_Returns_iff Let_def
        simp del: wrapper_simps)
  have "inv K N s'"
    unfolding s'
    by (rule inv_set_thread2 [OF I t]; insert pc f lk; cases n; simp add: local_ok_def)
  moreover have "Suc (steps_left K (at_pc (threads s' t)) (var_i (threads s' t))) =
      steps_left K (at_pc (threads s t)) (var_i (threads s t))"
    unfolding s' using pc f(3) by (cases n) (simp_all add: set_thread_simps)
  moreover have "the_map s' = the_map s \<or> 0 < holds (at_pc (threads s t))"
    unfolding s' using pc by (simp add: set_thread_simps)
  ultimately show ?thesis by simp
qed

lemma step_Loop_incr:
  assumes I: "inv K N s" and t: "t < N" and S: "func_step K t s = Returns s'"
    and pc: "at_pc (threads s t) = Loop_incr"
  shows "inv K N s' \<and>
         Suc (steps_left K (at_pc (threads s' t)) (var_i (threads s' t))) =
           steps_left K (at_pc (threads s t)) (var_i (threads s t)) \<and>
         (the_map s' = the_map s \<or> 0 < holds (at_pc (threads s t)))"
proof -
  note f = inv_facts [OF I t]
  from S pc f(1,2,3)
  have s': "s' = set_thread t
        ((threads s t)\<lparr>at_pc := Loop_test, var_i := Suc (var_i (threads s t))\<rparr>)
        (mk_store (the_map s) (the_mutex s)) s"
    by (auto simp: func_step_def Let_def)
  have "inv K N s'"
    unfolding s'
    by (rule inv_set_thread2 [OF I t]; insert pc f; simp add: local_ok_def)
  moreover have "Suc (steps_left K (at_pc (threads s' t)) (var_i (threads s' t))) =
      steps_left K (at_pc (threads s t)) (var_i (threads s t))"
    unfolding s' using pc f(3) by (auto simp: set_thread_simps Suc_diff_Suc)
  moreover have "the_map s' = the_map s \<or> 0 < holds (at_pc (threads s t))"
    unfolding s' using pc by (simp add: set_thread_simps)
  ultimately show ?thesis by simp
qed

lemma step_Copy_handle:
  assumes I: "inv K N s" and t: "t < N" and S: "func_step K t s = Returns s'"
    and pc: "at_pc (threads s t) = Copy_handle"
  shows "inv K N s' \<and>
         Suc (steps_left K (at_pc (threads s' t)) (var_i (threads s' t))) =
           steps_left K (at_pc (threads s t)) (var_i (threads s t)) \<and>
         (the_map s' = the_map s \<or> 0 < holds (at_pc (threads s t)))"
proof -
  note f = inv_facts [OF I t]
  from S pc f(1,2,3)
  have s': "s' = set_thread t
        ((threads s t)\<lparr>at_pc := Print_acquire Potato_first,
            var_readonly_safe_map_string := Some safe_map_strings_global\<rparr>)
        (mk_store (the_map s) (the_mutex s)) s"
    by (auto simp: func_step_def Let_def global_copy)
  have "inv K N s'"
    unfolding s'
    by (rule inv_set_thread2 [OF I t]; insert pc f; simp add: local_ok_def)
  moreover have "Suc (steps_left K (at_pc (threads s' t)) (var_i (threads s' t))) =
      steps_left K (at_pc (threads s t)) (var_i (threads s t))"
    unfolding s' using pc f(3) by (simp add: set_thread_simps)
  moreover have "the_map s' = the_map s \<or> 0 < holds (at_pc (threads s t))"
    unfolding s' using pc by (simp add: set_thread_simps)
  ultimately show ?thesis by simp
qed

lemma step_Print_acquire:
  assumes I: "inv K N s" and t: "t < N" and S: "func_step K t s = Returns s'"
    and pc: "at_pc (threads s t) = Print_acquire v"
  shows "inv K N s' \<and>
         Suc (steps_left K (at_pc (threads s' t)) (var_i (threads s' t))) =
           steps_left K (at_pc (threads s t)) (var_i (threads s t)) \<and>
         (the_map s' = the_map s \<or> 0 < holds (at_pc (threads s t)))"
proof -
  note f = inv_facts [OF I t]
  from S pc f(1,2,3) obtain x' where lk: "mutex_lock t (the_mutex s) = Returns x'"
    and s': "s' = set_thread t
        ((threads s t)\<lparr>at_pc := Print_read v,
            tmp_locks := Const the_lock # tmp_locks (threads s t)\<rparr>)
        (mk_store (the_map s) x') s"
    by (auto simp: func_step_def on_mk_store and_then_Returns_iff Let_def
        simp del: wrapper_simps)
  have "inv K N s'"
    unfolding s'
    by (rule inv_set_thread2 [OF I t]; insert pc f lk; cases v; simp add: local_ok_def)
  moreover have "Suc (steps_left K (at_pc (threads s' t)) (var_i (threads s' t))) =
      steps_left K (at_pc (threads s t)) (var_i (threads s t))"
    unfolding s' using pc f(3) by (cases v) (simp_all add: set_thread_simps)
  moreover have "the_map s' = the_map s \<or> 0 < holds (at_pc (threads s t))"
    unfolding s' using pc by (simp add: set_thread_simps)
  ultimately show ?thesis by simp
qed

lemma step_Print_read:
  assumes I: "inv K N s" and t: "t < N" and S: "func_step K t s = Returns s'"
    and pc: "at_pc (threads s t) = Print_read v"
  shows "inv K N s' \<and>
         Suc (steps_left K (at_pc (threads s' t)) (var_i (threads s' t))) =
           steps_left K (at_pc (threads s t)) (var_i (threads s t)) \<and>
         (the_map s' = the_map s \<or> 0 < holds (at_pc (threads s t)))"
proof -
  note f = inv_facts [OF I t]
  from S pc f(1-5) obtain e
    where s': "s' = set_thread t
        ((threads s t)\<lparr>at_pc := after_read v,
            printed := printed (threads s t) @ [operand_of v e]\<rparr>)
        (mk_store (the_map s) (the_mutex s)) s"
    by (cases v)
       (auto simp: func_step_def on_mk_store and_then_Returns_iff Let_def map_at_def
          simp del: wrapper_simps split: option.splits)
  have "inv K N s'"
    unfolding s'
    by (rule inv_set_thread2 [OF I t]; insert pc f; cases v; simp add: local_ok_def)
  moreover have "Suc (steps_left K (at_pc (threads s' t)) (var_i (threads s' t))) =
      steps_left K (at_pc (threads s t)) (var_i (threads s t))"
    unfolding s' using pc f(3) by (cases v) (simp_all add: set_thread_simps)
  moreover have "the_map s' = the_map s \<or> 0 < holds (at_pc (threads s t))"
    unfolding s' using pc by (simp add: set_thread_simps)
  ultimately show ?thesis by simp
qed

lemma step_Print_release:
  assumes I: "inv K N s" and t: "t < N" and S: "func_step K t s = Returns s'"
    and pc: "at_pc (threads s t) = Print_release v"
  shows "inv K N s' \<and>
         Suc (steps_left K (at_pc (threads s' t)) (var_i (threads s' t))) =
           steps_left K (at_pc (threads s t)) (var_i (threads s t)) \<and>
         (the_map s' = the_map s \<or> 0 < holds (at_pc (threads s t)))"
proof -
  note f = inv_facts [OF I t]
  from S pc f(1,2,3) obtain x' where lk: "mutex_unlock t (the_mutex s) = Returns x'"
    and s': "s' = set_thread t
        ((threads s t)\<lparr>at_pc := after_release v, tmp_locks := tl (tmp_locks (threads s t))\<rparr>)
        (mk_store (the_map s) x') s"
    by (cases v)
       (auto simp: func_step_def on_mk_store and_then_Returns_iff Let_def
          simp del: wrapper_simps)
  have "inv K N s'"
    unfolding s'
    by (rule inv_set_thread2 [OF I t]; insert pc f lk; cases v; simp add: local_ok_def)
  moreover have "Suc (steps_left K (at_pc (threads s' t)) (var_i (threads s' t))) =
      steps_left K (at_pc (threads s t)) (var_i (threads s t))"
    unfolding s' using pc f(3) by (cases v) (simp_all add: set_thread_simps)
  moreover have "the_map s' = the_map s \<or> 0 < holds (at_pc (threads s t))"
    unfolding s' using pc by (simp add: set_thread_simps)
  ultimately show ?thesis by simp
qed

lemma step_cases:
  assumes "inv K N s" and "t < N" and "func_step K t s = Returns s'"
    and "runnable (threads s t)"
  shows "inv K N s' \<and>
         Suc (steps_left K (at_pc (threads s' t)) (var_i (threads s' t))) =
           steps_left K (at_pc (threads s t)) (var_i (threads s t)) \<and>
         (the_map s' = the_map s \<or> 0 < holds (at_pc (threads s t)))"
proof (cases "at_pc (threads s t)")
  case (Set_acquire n)
  then show ?thesis by (rule step_Set_acquire [OF assms(1-3)])
next
  case (Set_index n)
  then show ?thesis by (rule step_Set_index [OF assms(1-3)])
next
  case (Set_assign n)
  then show ?thesis by (rule step_Set_assign [OF assms(1-3)])
next
  case (Set_release n)
  then show ?thesis by (rule step_Set_release [OF assms(1-3)])
next
  case Loop_test
  then show ?thesis by (rule step_Loop_test [OF assms(1-3)])
next
  case (Inc_acquire n)
  then show ?thesis by (rule step_Inc_acquire [OF assms(1-3)])
next
  case (Inc_lookup n)
  then show ?thesis by (rule step_Inc_lookup [OF assms(1-3)])
next
  case (Inc_load n)
  then show ?thesis by (rule step_Inc_load [OF assms(1-3)])
next
  case (Inc_store n)
  then show ?thesis by (rule step_Inc_store [OF assms(1-3)])
next
  case (Inc_release n)
  then show ?thesis by (rule step_Inc_release [OF assms(1-3)])
next
  case Loop_incr
  then show ?thesis by (rule step_Loop_incr [OF assms(1-3)])
next
  case Copy_handle
  then show ?thesis by (rule step_Copy_handle [OF assms(1-3)])
next
  case (Print_acquire v)
  then show ?thesis by (rule step_Print_acquire [OF assms(1-3)])
next
  case (Print_read v)
  then show ?thesis by (rule step_Print_read [OF assms(1-3)])
next
  case (Print_release v)
  then show ?thesis by (rule step_Print_release [OF assms(1-3)])
next
  case Done
  with assms show ?thesis by (simp add: runnable_def)
next
  case Terminated
  with assms show ?thesis by (simp add: runnable_def)
qed

lemma inv_step:
  assumes "inv K N s" and "t < N" and "func_step K t s = Returns s'"
    and "runnable (threads s t)"
  shows "inv K N s'"
  using step_cases [OF assms] by simp


section \<open>Every run of the threads\<close>

lemma inv_start: "inv K N start_state"
proof -
  have m: "the_map start_state = Map.empty" "the_mutex start_state = Free"
    by (simp_all add: the_map_def the_mutex_def start_state_def global_store mk_store_def)
  have pc: "at_pc (threads start_state t) = Set_acquire Apple"
    "var_i (threads start_state t) = 0" for t
    by (simp_all add: start_state_def start_thread_def)
  have 1: "store_ok start_state"
    by (simp add: store_ok_def m) (simp add: start_state_def global_store)
  have 2: "local_ok K (threads start_state t)" for t
    by (simp add: local_ok_def start_state_def start_thread_def global_copy)
  have 3: "mutex_ok N start_state"
    by (simp add: mutex_ok_def m pc)
  have "total N start_state n = 0" for n
    by (simp add: total_def pc)
  then have 4: "data_ok N start_state"
    by (simp add: data_ok_def m pc counter_def)
  show ?thesis using 1 2 3 4 by (simp add: inv_def)
qed

lemma step_others:
  assumes "func_step K t s = Returns s'" and "u \<noteq> t"
  shows "threads s' u = threads s u"
  using assms
  by (cases "at_pc (threads s t)")
     (auto simp: func_step_def Let_def and_then_Returns_iff set_thread_simps
        simp del: wrapper_simps split: option.splits list.splits name.splits if_splits)

lemma holder:
  assumes "mutex_ok N s" and "t < N" and "holds (at_pc (threads s t)) = Suc k"
  shows "the_mutex s = Held t k"
proof (cases "the_mutex s")
  case Free
  with assms show ?thesis by (simp add: mutex_ok_def)
next
  case (Held u n)
  with assms(1) have u: "holds (at_pc (threads s u)) = Suc n"
    "\<forall>w < N. w \<noteq> u \<longrightarrow> holds (at_pc (threads s w)) = 0"
    by (simp_all add: mutex_ok_def)
  with assms(2,3) have "u = t" by auto
  with u(1) assms(3) Held show ?thesis by simp
qed

lemma mutex_lock_cases:
  "depth m < max_level \<Longrightarrow>
     mutex_lock t m = Returns (Held t (depth m)) \<or>
     (mutex_lock t m = Blocks \<and> (\<exists>u n. m = Held u n \<and> u \<noteq> t))"
  by (cases m) auto

text \<open>
  A thread of \<^verbatim>\<open>func\<close> holds four accessors at most (in its output statement), so
  the mutex stays far below its maximal level of ownership.
\<close>

lemma holds_le: "holds p \<le> 4"
  by (induction p rule: holds.induct) simp_all

lemma mutex_level:
  assumes "mutex_ok N s"
  shows "depth (the_mutex s) < max_level"
proof (cases "the_mutex s")
  case Free
  then show ?thesis by (simp add: max_level_def)
next
  case (Held u n)
  with assms have "holds (at_pc (threads s u)) = Suc n" by (simp add: mutex_ok_def)
  with holds_le [of "at_pc (threads s u)"] Held show ?thesis by (simp add: max_level_def)
qed

lemma incs_le_aux: "locals_at K p th \<Longrightarrow> var_i th = i \<Longrightarrow> incs n p i \<le> K"
  by (induction n p i rule: incs.induct) auto

lemma incs_le: "locals_at K p th \<Longrightarrow> incs n p (var_i th) \<le> K"
  by (rule incs_le_aux) simp_all

lemma total_le:
  assumes "\<forall>t < N. local_ok K (threads s t)"
  shows "total N s n \<le> N * K"
proof -
  have "(\<Sum>t < N. incs n (at_pc (threads s t)) (var_i (threads s t))) \<le> (\<Sum>t < N. K)"
    by (rule sum_mono) (use assms in \<open>simp add: local_ok_def incs_le\<close>)
  then show ?thesis by (simp add: total_def)
qed

text \<open>
  A step of a thread that has not returned is never undefined: it returns, or it
  blocks because another thread owns the mutex.
\<close>

lemma step_defined:
  assumes I: "inv K N s" and t: "t < N" and B: "N * K < 2147483647"
    and R: "runnable (threads s t)"
  shows "(\<exists>s'. func_step K t s = Returns s') \<or>
         (func_step K t s = Blocks \<and> (\<exists>u n. the_mutex s = Held u n \<and> u \<noteq> t))"
proof -
  note f = inv_facts [OF I t]
  from I have mx: "mutex_ok N s" and loc: "\<forall>t < N. local_ok K (threads s t)"
    and dat: "data_ok N s"
    by (simp_all add: inv_def)
  note lk = mutex_lock_cases [OF mutex_level [OF mx], of t]
  have un: "mutex_unlock t (the_mutex s) =
      Returns (case k of 0 \<Rightarrow> Free | Suc j \<Rightarrow> Held t j)"
    if "holds (at_pc (threads s t)) = Suc k" for k
    using holder [OF mx t that] by simp
  show ?thesis
  proof (cases "at_pc (threads s t)")
    case (Set_acquire n)
    with f(1,2,3) lk show ?thesis
      by (auto simp: func_step_def on_mk_store Let_def simp del: wrapper_simps)
  next
    case (Set_index n)
    with f(1,2,3) show ?thesis
      by (auto simp: func_step_def on_mk_store Let_def simp del: wrapper_simps)
  next
    case (Set_assign n)
    with f(1-5) show ?thesis
      by (cases n)
         (auto simp: func_step_def on_mk_store Let_def simp del: wrapper_simps)
  next
    case (Set_release n)
    with f(1,2,3) un [of 0] show ?thesis
      by (auto simp: func_step_def on_mk_store Let_def simp del: wrapper_simps)
  next
    case Loop_test
    then show ?thesis by (simp add: func_step_def Let_def)
  next
    case (Inc_acquire n)
    with f(1,2,3) lk show ?thesis
      by (auto simp: func_step_def on_mk_store Let_def simp del: wrapper_simps)
  next
    case (Inc_lookup n)
    with f(1-5) show ?thesis
      by (cases n)
         (auto simp: func_step_def on_mk_store Let_def map_at_def map_find_def
            simp del: wrapper_simps)
  next
    case (Inc_load n)
    with f(1-5) show ?thesis
      by (cases n)
         (auto simp: func_step_def on_mk_store Let_def simp del: wrapper_simps)
  next
    case (Inc_store n)
    have "tmp_val (threads s t) = counter (the_map s) n"
      using f(8,9) Inc_store by (cases n) simp_all
    also have "\<dots> = int (total N s n)"
      using dat by (simp add: data_ok_def)
    finally have "tmp_val (threads s t) \<noteq> 2147483647"
      using total_le [OF loc, of n] B by simp
    with Inc_store f(1-5) show ?thesis
      by (cases n)
         (auto simp: func_step_def on_mk_store Let_def simp del: wrapper_simps)
  next
    case (Inc_release n)
    with f(1,2,3) un [of 0] show ?thesis
      by (auto simp: func_step_def on_mk_store Let_def simp del: wrapper_simps)
  next
    case Loop_incr
    then show ?thesis by (simp add: func_step_def Let_def)
  next
    case Copy_handle
    then show ?thesis by (simp add: func_step_def Let_def)
  next
    case (Print_acquire v)
    with f(1,2,3) lk show ?thesis
      by (auto simp: func_step_def on_mk_store Let_def simp del: wrapper_simps)
  next
    case (Print_read v)
    with f(1-5) show ?thesis
      by (cases v)
         (auto simp: func_step_def on_mk_store Let_def map_at_def simp del: wrapper_simps)
  next
    case (Print_release v)
    with f(1,2,3) un show ?thesis
      by (cases v)
         (auto simp: func_step_def on_mk_store Let_def simp del: wrapper_simps)
  next
    case Done
    with R show ?thesis by (simp add: runnable_def)
  next
    case Terminated
    with R show ?thesis by (simp add: runnable_def)
  qed
qed

lemma mutual_exclusion:
  assumes "inv K N s" and "t < N" and "u < N"
    and "0 < holds (at_pc (threads s t))" and "0 < holds (at_pc (threads s u))"
  shows "t = u"
proof (rule ccontr)
  assume "t \<noteq> u"
  then have "u \<noteq> t" by simp
  from assms(1) have "mutex_ok N s" by (simp add: inv_def)
  from mutex_ok_exclusive [OF this assms(2,3) \<open>u \<noteq> t\<close> assms(4)] assms(5)
  show False by simp
qed

lemma map_of_two:
  assumes "dom m \<subseteq> {a, b}" and "m a = Some x" and "m b = Some y" and "a \<noteq> b"
  shows "m = [a \<mapsto> x, b \<mapsto> y]"
proof (rule ext)
  fix k
  show "m k = [a \<mapsto> x, b \<mapsto> y] k"
  proof (cases "k = a \<or> k = b")
    case True
    with assms show ?thesis by auto
  next
    case False
    with assms(1) have "m k = None" by auto
    with False show ?thesis by simp
  qed
qed

lemma final_state:
  assumes I: "inv K N s" and D: "all_done N s" and N: "0 < N"
  shows "store s =
           mk_store [''apple'' \<mapsto> (''fruit'', int (N * K)),
                     ''potato'' \<mapsto> (''vegetable'', int (N * K))] Free"
proof -
  from I have st: "store_ok s" and loc: "\<forall>t < N. local_ok K (threads s t)"
    and mx: "mutex_ok N s" and dat: "data_ok N s"
    by (simp_all add: inv_def)
  have pc: "at_pc (threads s t) = Done" if "t < N" for t
    using D that by (simp add: all_done_def)
  have i: "var_i (threads s t) = K" if "t < N" for t
    using loc pc [OF that] that by (auto simp: local_ok_def)
  have "total N s n = (\<Sum>t < N. K)" for n
    unfolding total_def by (rule sum.cong) (simp_all add: pc i)
  then have tot: "total N s n = N * K" for n by simp
  have free: "the_mutex s = Free"
  proof (cases "the_mutex s")
    case (Held u n)
    with mx have "u < N" "holds (at_pc (threads s u)) = Suc n" by (simp_all add: mutex_ok_def)
    with pc [of u] show ?thesis by simp
  qed simp
  have key: "the_map s (key_of n) = Some (kind_of n, int (N * K))" for n
  proof -
    have "assigned n (at_pc (threads s 0))" using pc [OF N] by simp
    with dat N obtain c where c: "the_map s (key_of n) = Some (kind_of n, c)"
      unfolding data_ok_def by blast
    have "counter (the_map s) n = int (total N s n)" using dat by (simp add: data_ok_def)
    with c tot show ?thesis by (simp add: counter_def)
  qed
  have "dom (the_map s) \<subseteq> {''apple'', ''potato''}" using dat by (simp add: data_ok_def)
  from map_of_two [OF this] key [of Apple] key [of Potato]
  have "the_map s = [''apple'' \<mapsto> (''fruit'', int (N * K)),
      ''potato'' \<mapsto> (''vegetable'', int (N * K))]"
    by simp
  with st free show ?thesis by (simp add: store_ok_def)
qed

lemma work_left_step:
  assumes I: "inv K N s" and t: "t < N" and S: "func_step K t s = Returns s'"
    and R: "runnable (threads s t)"
  shows "work_left K N s = Suc (work_left K N s')"
proof -
  have th: "threads s' = (threads s)(t := threads s' t)"
    by (rule ext) (simp add: step_others [OF S])
  have "work_left K N s' = work_left K N (set_thread t (threads s' t) (store s') s)"
    by (simp add: work_left_def set_thread_simps th [symmetric])
  with work_left_set_thread [OF t, of K "threads s' t" "store s'" s]
    step_cases [OF I t S R]
  show ?thesis by simp
qed

lemma run_inv:
  assumes "inv K N s" and "set ts \<subseteq> {..<N}" and "run K ts s = Returns s'"
  shows "inv K N s' \<and> work_left K N s = length ts + work_left K N s'"
  using assms
proof (induction ts arbitrary: s)
  case Nil
  then show ?case by simp
next
  case (Cons t ts)
  from Cons.prems(2) have t: "t < N" and ts: "set ts \<subseteq> {..<N}" by simp_all
  from Cons.prems(3) obtain s1 where R: "runnable (threads s t)"
    and s1: "func_step K t s = Returns s1" and r: "run K ts s1 = Returns s'"
    by (auto simp: and_then_Returns_iff split: if_splits)
  have "inv K N s1" by (rule inv_step [OF Cons.prems(1) t s1 R])
  from Cons.IH [OF this ts r] work_left_step [OF Cons.prems(1) t s1 R]
  show ?case by simp
qed

lemma progress:
  assumes I: "inv K N s" and B: "N * K < 2147483647" and D: "\<not> all_done N s"
  shows "\<exists>t < N. runnable (threads s t) \<and> (\<exists>s'. func_step K t s = Returns s')"
proof -
  from I have mx: "mutex_ok N s" and loc: "\<forall>t < N. local_ok K (threads s t)"
    by (simp_all add: inv_def)
  have run: "runnable (threads s t)" if "t < N" "at_pc (threads s t) \<noteq> Done" for t
    using loc that by (auto simp: local_ok_def runnable_def)
  show ?thesis
  proof (cases "the_mutex s")
    case Free
    from D obtain t where t: "t < N" "at_pc (threads s t) \<noteq> Done"
      by (auto simp: all_done_def)
    from step_defined [OF I t(1) B run [OF t]] Free t(1) run [OF t]
    show ?thesis by auto
  next
    case (Held u n)
    with mx have u: "u < N" "holds (at_pc (threads s u)) = Suc n"
      by (simp_all add: mutex_ok_def)
    then have "at_pc (threads s u) \<noteq> Done" by auto
    from step_defined [OF I u(1) B run [OF u(1) this]] Held u(1) run [OF u(1) this]
    show ?thesis by auto
  qed
qed

lemma run_append:
  "run K (ts @ us) s = and_then (run K ts s) (run K us)"
proof (induction ts arbitrary: s)
  case Nil
  then show ?case by simp
next
  case (Cons t ts)
  then show ?case by (cases "func_step K t s") simp_all
qed

lemma completion:
  assumes "inv K N s" and "N * K < 2147483647"
  shows "\<exists>ts s'. set ts \<subseteq> {..<N} \<and> run K ts s = Returns s' \<and> all_done N s'"
  using assms(1)
proof (induction "work_left K N s" arbitrary: s rule: less_induct)
  case less
  show ?case
  proof (cases "all_done N s")
    case True
    then have "set [] \<subseteq> {..<N} \<and> run K [] s = Returns s \<and> all_done N s" by simp
    then show ?thesis by blast
  next
    case False
    from progress [OF less.prems assms(2) False] obtain t s1
      where t: "t < N" "runnable (threads s t)" "func_step K t s = Returns s1"
      by blast
    have i1: "inv K N s1" by (rule inv_step [OF less.prems t(1,3,2)])
    have "work_left K N s1 < work_left K N s"
      using work_left_step [OF less.prems t(1,3,2)] by simp
    from less.hyps [OF this i1] obtain ts s'
      where r: "set ts \<subseteq> {..<N}" "run K ts s1 = Returns s'" "all_done N s'"
      by blast
    have "set (t # ts) \<subseteq> {..<N} \<and> run K (t # ts) s = Returns s' \<and> all_done N s'"
      using t r by simp
    then show ?thesis by blast
  qed
qed


section \<open>What the threads print\<close>

lemma prints_at_free:
  "holds p = 0 \<Longrightarrow> prints_at K N p m ps = prints_at K N p m' ps"
proof (induction K N p m ps rule: prints_at.induct)
  case (7 K N x m ps)
  then show ?case by (cases x) simp_all
qed simp_all

lemma own_incs_le_total:
  assumes "t < N"
  shows "incs n (at_pc (threads s t)) (var_i (threads s t)) \<le> total N s n"
proof -
  have "(\<lambda>u. incs n (at_pc (threads s u)) (var_i (threads s u))) t \<le>
      (\<Sum>u \<in> {..<N}. incs n (at_pc (threads s u)) (var_i (threads s u)))"
    by (rule member_le_sum) (use assms in simp_all)
  then show ?thesis by (simp add: total_def)
qed

lemma counter_bounds:
  assumes I: "inv K N s" and t: "t < N" and pc: "at_pc (threads s t) = Print_release v"
  shows "int K \<le> counter (the_map s) n \<and> counter (the_map s) n \<le> int (N * K)"
proof -
  from I have loc: "\<forall>t < N. local_ok K (threads s t)" and dat: "data_ok N s"
    by (simp_all add: inv_def)
  have c: "counter (the_map s) n = int (total N s n)"
    using dat by (simp add: data_ok_def)
  from inv_facts(3) [OF I t] pc have "var_i (threads s t) = K" by simp
  with own_incs_le_total [OF t, of n s] pc have "K \<le> total N s n" by simp
  then have 1: "int K \<le> int (total N s n)" by (simp only: of_nat_le_iff)
  have 2: "int (total N s n) \<le> int (N * K)"
    using total_le [OF loc, of n] by (simp only: of_nat_le_iff)
  from 1 2 show ?thesis unfolding c by blast
qed

lemma prints_own_step:
  assumes I: "inv K N s" and t: "t < N" and S: "func_step K t s = Returns s'"
    and R: "runnable (threads s t)"
    and P: "prints_at K N (at_pc (threads s t)) (the_map s) (printed (threads s t))"
  shows "prints_at K N (at_pc (threads s' t)) (the_map s') (printed (threads s' t))"
proof -
  note f = inv_facts [OF I t]
  show ?thesis
  proof (cases "at_pc (threads s t)")
    case (Set_acquire n)
    with S P f(1,2,3) show ?thesis
      by (auto simp: func_step_def on_mk_store and_then_Returns_iff Let_def set_thread_simps
          simp del: wrapper_simps)
  next
    case (Set_index n)
    with S P f(1,2,3) show ?thesis
      by (auto simp: func_step_def on_mk_store and_then_Returns_iff Let_def set_thread_simps
          simp del: wrapper_simps)
  next
    case (Set_assign n)
    with S P f(1-5) show ?thesis
      by (cases n)
         (auto simp: func_step_def on_mk_store and_then_Returns_iff Let_def set_thread_simps
            simp del: wrapper_simps)
  next
    case (Set_release n)
    with S P f(1,2,3) show ?thesis
      by (cases n)
         (auto simp: func_step_def on_mk_store and_then_Returns_iff Let_def set_thread_simps
            simp del: wrapper_simps)
  next
    case Loop_test
    with S P show ?thesis
      by (auto simp: func_step_def Let_def set_thread_simps)
  next
    case (Inc_acquire n)
    with S P f(1,2,3) show ?thesis
      by (auto simp: func_step_def on_mk_store and_then_Returns_iff Let_def set_thread_simps
          simp del: wrapper_simps)
  next
    case (Inc_lookup n)
    with S P f(1-5) show ?thesis
      by (cases n)
         (auto simp: func_step_def on_mk_store and_then_Returns_iff Let_def set_thread_simps
            map_at_def map_find_def simp del: wrapper_simps split: option.splits)
  next
    case (Inc_load n)
    with S P f(1-5) show ?thesis
      by (cases n)
         (auto simp: func_step_def on_mk_store and_then_Returns_iff Let_def set_thread_simps
            simp del: wrapper_simps)
  next
    case (Inc_store n)
    with S P f(1-5) show ?thesis
      by (cases n)
         (auto simp: func_step_def on_mk_store and_then_Returns_iff Let_def set_thread_simps
            simp del: wrapper_simps split: if_splits)
  next
    case (Inc_release n)
    with S P f(1,2,3) show ?thesis
      by (cases n)
         (auto simp: func_step_def on_mk_store and_then_Returns_iff Let_def set_thread_simps
            simp del: wrapper_simps)
  next
    case Loop_incr
    with S P show ?thesis
      by (auto simp: func_step_def Let_def set_thread_simps)
  next
    case Copy_handle
    with S P show ?thesis
      by (auto simp: func_step_def Let_def set_thread_simps)
  next
    case (Print_acquire v)
    with S P f(1,2,3) show ?thesis
      by (cases v)
         (auto simp: func_step_def on_mk_store and_then_Returns_iff Let_def set_thread_simps
            simp del: wrapper_simps)
  next
    case (Print_read v)
    with S P f(1-7) show ?thesis
      by (cases v)
         (auto simp: func_step_def on_mk_store and_then_Returns_iff Let_def set_thread_simps
            map_at_def counter_def simp del: wrapper_simps split: option.splits)
  next
    case (Print_release v)
    note b = counter_bounds [OF I t Print_release]
    from Print_release S P f(1,2,3) b [of Potato] b [of Apple] show ?thesis
      by (cases v)
         (auto simp: func_step_def on_mk_store and_then_Returns_iff Let_def set_thread_simps
            simp del: wrapper_simps)
  next
    case Done
    with R show ?thesis by (simp add: runnable_def)
  next
    case Terminated
    with R show ?thesis by (simp add: runnable_def)
  qed
qed

lemma prints_step:
  assumes I: "inv K N s" and t: "t < N" and S: "func_step K t s = Returns s'"
    and R: "runnable (threads s t)" and P: "prints_ok K N s"
  shows "prints_ok K N s'"
  unfolding prints_ok_def
proof (intro allI impI)
  fix u assume u: "u < N"
  note c = step_cases [OF I t S R]
  show "prints_at K N (at_pc (threads s' u)) (the_map s') (printed (threads s' u))"
  proof (cases "u = t")
    case True
    from P t have "prints_at K N (at_pc (threads s t)) (the_map s) (printed (threads s t))"
      by (simp add: prints_ok_def)
    from prints_own_step [OF I t S R this] True show ?thesis by simp
  next
    case False
    then have o: "threads s' u = threads s u" by (rule step_others [OF S])
    from P u have p: "prints_at K N (at_pc (threads s u)) (the_map s) (printed (threads s u))"
      by (simp add: prints_ok_def)
    show ?thesis
    proof (cases "the_map s' = the_map s")
      case True
      with p o show ?thesis by simp
    next
      case False
      with c have "0 < holds (at_pc (threads s t))" by simp
      moreover from I have "mutex_ok N s" by (simp add: inv_def)
      ultimately have "holds (at_pc (threads s u)) = 0"
        using mutex_ok_exclusive [of N s t u] t u \<open>u \<noteq> t\<close> by simp
      from prints_at_free [OF this, of K N "the_map s" "printed (threads s u)" "the_map s'"] p o
      show ?thesis by simp
    qed
  qed
qed

lemma prints_start: "prints_ok K N start_state"
  by (simp add: prints_ok_def start_state_def start_thread_def)

lemma run_prints:
  assumes "inv K N s" and "prints_ok K N s" and "set ts \<subseteq> {..<N}"
    and "run K ts s = Returns s'"
  shows "prints_ok K N s'"
  using assms
proof (induction ts arbitrary: s)
  case Nil
  then show ?case by simp
next
  case (Cons t ts)
  from Cons.prems(3) have t: "t < N" and ts: "set ts \<subseteq> {..<N}" by simp_all
  from Cons.prems(4) have R: "runnable (threads s t)"
    by (simp split: if_splits)
  with Cons.prems(4) obtain s1 where s1: "func_step K t s = Returns s1"
    and r: "run K ts s1 = Returns s'"
    by (auto simp: and_then_Returns_iff)
  have 1: "inv K N s1" by (rule inv_step [OF Cons.prems(1) t s1 R])
  have 2: "prints_ok K N s1" by (rule prints_step [OF Cons.prems(1) t s1 R Cons.prems(2)])
  show ?case by (rule Cons.IH [OF 1 2 ts r])
qed

text \<open>One thread running alone, and the threads running one after the other.\<close>

lemma steps_left_0: "steps_left K p i = 0 \<longleftrightarrow> p = Done \<or> p = Terminated"
  by (induction K p i rule: steps_left.induct) simp_all

lemma steps_left_1: "steps_left K p i = Suc 0 \<longleftrightarrow> p = Print_release Potato_first"
  by (induction K p i rule: steps_left.induct) simp_all

text \<open>The step with which a thread returns leaves the map and its output as they are.\<close>

lemma step_return:
  assumes I: "inv K N s" and t: "t < N" and S: "func_step K t s = Returns s'"
    and pc: "at_pc (threads s t) = Print_release Potato_first"
  shows "the_map s' = the_map s \<and> printed (threads s' t) = printed (threads s t)"
  using S pc inv_facts(1,2,3) [OF I t]
  by (auto simp: func_step_def on_mk_store and_then_Returns_iff Let_def set_thread_simps
      simp del: wrapper_simps)

lemma solo:
  assumes "inv K N s" and "t < N" and "N * K < 2147483647"
    and "\<forall>u < N. u \<noteq> t \<longrightarrow> holds (at_pc (threads s u)) = 0"
    and "steps_left K (at_pc (threads s t)) (var_i (threads s t)) = n"
    and "prints_ok K N s"
  shows "\<exists>s'. run K (replicate n t) s = Returns s' \<and> inv K N s' \<and> prints_ok K N s' \<and>
           at_pc (threads s' t) = Done \<and> (\<forall>u. u \<noteq> t \<longrightarrow> threads s' u = threads s u) \<and>
           (0 < n \<longrightarrow> printed (threads s' t) =
              [Inl ''vegetable'', Inr (counter (the_map s') Potato),
               Inl ''fruit'', Inr (counter (the_map s') Apple)])"
  using assms(1,4,5,6)
proof (induction n arbitrary: s)
  case 0
  from 0(1) assms(2) have "at_pc (threads s t) \<noteq> Terminated"
    by (auto simp: inv_def local_ok_def)
  with 0(3) have "at_pc (threads s t) = Done" by (simp add: steps_left_0)
  with 0(1,4) show ?case by simp
next
  case (Suc k)
  from Suc.prems(3) have "at_pc (threads s t) \<noteq> Done \<and> at_pc (threads s t) \<noteq> Terminated"
    using steps_left_0 [of K "at_pc (threads s t)" "var_i (threads s t)"] by simp
  then have R: "runnable (threads s t)" by (simp add: runnable_def)
  have "\<not> (\<exists>u n. the_mutex s = Held u n \<and> u \<noteq> t)"
  proof
    assume "\<exists>u n. the_mutex s = Held u n \<and> u \<noteq> t"
    then obtain u n where u: "the_mutex s = Held u n" "u \<noteq> t" by blast
    from Suc.prems(1) have "mutex_ok N s" by (simp add: inv_def)
    with u(1) have "u < N" "holds (at_pc (threads s u)) = Suc n" by (simp_all add: mutex_ok_def)
    with Suc.prems(2) u(2) show False by simp
  qed
  with step_defined [OF Suc.prems(1) assms(2,3) R]
  obtain s1 where s1: "func_step K t s = Returns s1" by blast
  note c = step_cases [OF Suc.prems(1) assms(2) s1 R]
  have o: "threads s1 u = threads s u" if "u \<noteq> t" for u
    by (rule step_others [OF s1 that])
  have 1: "inv K N s1" using c by simp
  have 2: "\<forall>u < N. u \<noteq> t \<longrightarrow> holds (at_pc (threads s1 u)) = 0"
    using Suc.prems(2) o by simp
  have 3: "steps_left K (at_pc (threads s1 t)) (var_i (threads s1 t)) = k"
    using c Suc.prems(3) by simp
  have 4: "prints_ok K N s1"
    by (rule prints_step [OF Suc.prems(1) assms(2) s1 R Suc.prems(4)])
  from Suc.IH [OF 1 2 3 4] obtain s'
    where s': "run K (replicate k t) s1 = Returns s'" "inv K N s'" "prints_ok K N s'"
      "at_pc (threads s' t) = Done" "\<forall>u. u \<noteq> t \<longrightarrow> threads s' u = threads s1 u"
      "0 < k \<longrightarrow> printed (threads s' t) =
          [Inl ''vegetable'', Inr (counter (the_map s') Potato),
           Inl ''fruit'', Inr (counter (the_map s') Apple)]"
    by blast
  have r: "run K (replicate (Suc k) t) s = Returns s'"
    using R s1 s'(1) by simp
  have p: "printed (threads s' t) =
      [Inl ''vegetable'', Inr (counter (the_map s') Potato),
       Inl ''fruit'', Inr (counter (the_map s') Apple)]"
  proof (cases k)
    case 0
    with s'(1) have e: "s' = s1" by simp
    from 0 Suc.prems(3) have pc: "at_pc (threads s t) = Print_release Potato_first"
      by (simp add: steps_left_1)
    from Suc.prems(4) assms(2) pc
    have "printed (threads s t) =
        [Inl ''vegetable'', Inr (counter (the_map s) Potato),
         Inl ''fruit'', Inr (counter (the_map s) Apple)]"
      by (auto simp: prints_ok_def)
    with step_return [OF Suc.prems(1) assms(2) s1 pc] e show ?thesis by simp
  next
    case (Suc j)
    with s'(6) show ?thesis by simp
  qed
  from r s'(2,3,4,5) o p show ?case by auto
qed

lemma total_after:
  assumes I: "inv K N s" and j: "j < N"
    and pcs: "\<forall>u < N. (u \<le> j \<longrightarrow> at_pc (threads s u) = Done) \<and>
           (j < u \<longrightarrow> at_pc (threads s u) = Set_acquire Apple)"
  shows "counter (the_map s) n = int (Suc j * K)"
proof -
  from I have dat: "data_ok N s" by (simp add: inv_def)
  have v: "incs n (at_pc (threads s u)) (var_i (threads s u)) = (if u < Suc j then K else 0)"
    if "u \<in> {..<N}" for u
  proof -
    from that have u: "u < N" by simp
    note f = inv_facts(3) [OF I u]
    show ?thesis
    proof (cases "u \<le> j")
      case True
      with pcs u have "at_pc (threads s u) = Done" by simp
      with f True show ?thesis by simp
    next
      case False
      with pcs u have "at_pc (threads s u) = Set_acquire Apple" by simp
      with f False show ?thesis by simp
    qed
  qed
  have "total N s n = (\<Sum>u \<in> {..<N}. if u < Suc j then K else 0)"
    unfolding total_def by (rule sum.cong [OF refl v])
  also have "\<dots> = (\<Sum>u \<in> {..<N} \<inter> {u. u < Suc j}. K)"
    by (simp add: sum.If_cases)
  also have "{..<N} \<inter> {u. u < Suc j} = {..<Suc j}"
    using j by auto
  finally have "total N s n = Suc j * K" by simp
  with dat show ?thesis by (simp only: data_ok_def)
qed

lemma one_after_the_other:
  assumes "inv K N s" and "N * K < 2147483647" and "j + d = N"
    and "\<forall>u < N. (u < j \<longrightarrow> at_pc (threads s u) = Done) \<and>
           (j \<le> u \<longrightarrow> at_pc (threads s u) = Set_acquire Apple)"
    and "prints_ok K N s"
  shows "\<exists>s'. run K (concat (map (replicate (12 * K + 22)) [j..<N])) s = Returns s' \<and>
           all_done N s' \<and> (\<forall>u < j. threads s' u = threads s u) \<and>
           (\<forall>u. j \<le> u \<and> u < N \<longrightarrow>
              printed (threads s' u) =
                [Inl ''vegetable'', Inr (int (Suc u * K)), Inl ''fruit'', Inr (int (Suc u * K))])"
  using assms(1,3,4,5)
proof (induction d arbitrary: j s)
  case 0
  then have "all_done N s" by (simp add: all_done_def)
  with 0 show ?case by auto
next
  case (Suc d)
  then have j: "j < N" by simp
  have h: "\<forall>u < N. u \<noteq> j \<longrightarrow> holds (at_pc (threads s u)) = 0"
  proof (intro allI impI)
    fix u assume "u < N" "u \<noteq> j"
    with Suc.prems(3) have "at_pc (threads s u) = Done \<or> at_pc (threads s u) = Set_acquire Apple"
      by (cases "u < j") auto
    then show "holds (at_pc (threads s u)) = 0" by auto
  qed
  have n: "steps_left K (at_pc (threads s j)) (var_i (threads s j)) = 12 * K + 22"
    using Suc.prems(3) j by simp
  from solo [OF Suc.prems(1) j assms(2) h n Suc.prems(4)] obtain s1
    where s1: "run K (replicate (12 * K + 22) j) s = Returns s1" "inv K N s1"
      "prints_ok K N s1" "at_pc (threads s1 j) = Done"
      "\<forall>u. u \<noteq> j \<longrightarrow> threads s1 u = threads s u"
      "printed (threads s1 j) =
         [Inl ''vegetable'', Inr (counter (the_map s1) Potato),
          Inl ''fruit'', Inr (counter (the_map s1) Apple)]"
    by auto
  have 3: "\<forall>u < N. (u < Suc j \<longrightarrow> at_pc (threads s1 u) = Done) \<and>
      (Suc j \<le> u \<longrightarrow> at_pc (threads s1 u) = Set_acquire Apple)"
  proof (intro allI impI)
    fix u assume u: "u < N"
    show "(u < Suc j \<longrightarrow> at_pc (threads s1 u) = Done) \<and>
        (Suc j \<le> u \<longrightarrow> at_pc (threads s1 u) = Set_acquire Apple)"
    proof (cases "u = j")
      case True
      with s1(4) show ?thesis by simp
    next
      case False
      with s1(5) Suc.prems(3) u show ?thesis by auto
    qed
  qed
  then have q: "\<forall>u < N. (u \<le> j \<longrightarrow> at_pc (threads s1 u) = Done) \<and>
      (j < u \<longrightarrow> at_pc (threads s1 u) = Set_acquire Apple)"
    by (simp add: less_Suc_eq_le Suc_le_eq)
  have pj: "printed (threads s1 j) =
      [Inl ''vegetable'', Inr (int (Suc j * K)), Inl ''fruit'', Inr (int (Suc j * K))]"
    unfolding s1(6) total_after [OF s1(2) j q] by (rule refl)
  have "Suc j + d = N" using Suc.prems(2) by simp
  from Suc.IH [OF s1(2) this 3 s1(3)] obtain s'
    where s': "run K (concat (map (replicate (12 * K + 22)) [Suc j..<N])) s1 = Returns s'"
      "all_done N s'" "\<forall>u < Suc j. threads s' u = threads s1 u"
      "\<forall>u. Suc j \<le> u \<and> u < N \<longrightarrow>
         printed (threads s' u) =
           [Inl ''vegetable'', Inr (int (Suc u * K)), Inl ''fruit'', Inr (int (Suc u * K))]"
    by blast
  have "[j..<N] = j # [Suc j..<N]" using j by (simp add: upt_conv_Cons)
  then have r: "run K (concat (map (replicate (12 * K + 22)) [j..<N])) s = Returns s'"
    using s1(1) s'(1) by (simp add: run_append)
  have a: "\<forall>u < j. threads s' u = threads s u"
    using s'(3) s1(5) by simp
  have b: "printed (threads s' u) =
      [Inl ''vegetable'', Inr (int (Suc u * K)), Inl ''fruit'', Inr (int (Suc u * K))]"
    if "j \<le> u" "u < N" for u
  proof (cases "u = j")
    case True
    with s'(3) pj show ?thesis by simp
  next
    case False
    with that s'(4) show ?thesis by simp
  qed
  from r s'(2) a b show ?case by blast
qed

text \<open>
  A schedule that cannot be run: thread 0 takes the mutex for its first statement, and
  thread 1 would have to take it next.
\<close>

lemma second_thread_waits: "run loop_bound [0, 1] start_state = Blocks"
  by (simp add: func_step_def start_state_def start_thread_def runnable_def global_store
      on_mk_store set_thread_simps del: wrapper_simps)

section \<open>The ten threads of test\_safe\_ptr\<close>

text \<open>
  C1. Take any run of the ten threads of \<^verbatim>\<open>test_safe_ptr\<close> from the state in which
  they start, each with its copy of \<^verbatim>\<open>safe_map_strings_global\<close> and ten thousand
  rounds of the loop ahead, and let \<open>s\<close> be the state it leads to. In \<open>s\<close>:
  each counter of the map is the number of increments the threads have completed (no
  update is lost); at most one thread holds an accessor (what the threads do under
  their accessors is mutually exclusive, and so ordered); no thread was terminated by
  an exception, no step of a thread is undefined or throws (the mutex stays below its
  maximal level of ownership), and a step changes the map only if
  its thread holds an accessor; the run has 1200220 steps at
  most, and unless all threads have returned, some thread can take a step (no
  deadlock). When all threads have returned, the map is apple -> (fruit, 100000),
  potato -> (vegetable, 100000), the mutex is free, and a read through a read-only
  accessor, by any thread, returns these two entries. The output statement of
  \<^verbatim>\<open>func\<close> itself reads the counters when its thread has left the loop, while
  other threads may still be in theirs: a thread that has returned has written
  vegetable, fruit and two counters between 10000 and 100000.
\<close>

theorem no_lost_updates:
  assumes "set ts \<subseteq> {..<vec_thread_size}"
    and "run loop_bound ts start_state = Returns s"
  shows "(\<forall>n. counter (the_map s) n = int (total vec_thread_size s n)) \<and>
         (\<forall>t u. t < vec_thread_size \<and> u < vec_thread_size \<and>
                0 < holds (at_pc (threads s t)) \<and> 0 < holds (at_pc (threads s u)) \<longrightarrow> t = u) \<and>
         (\<forall>t < vec_thread_size. at_pc (threads s t) \<noteq> Terminated \<and>
            (runnable (threads s t) \<longrightarrow>
               func_step loop_bound t s \<noteq> Undefined \<and> func_step loop_bound t s \<noteq> Ill_formed \<and>
               func_step loop_bound t s \<noteq> Throws \<and>
               (\<forall>s'. func_step loop_bound t s = Returns s' \<and> the_map s' \<noteq> the_map s \<longrightarrow>
                     0 < holds (at_pc (threads s t))))) \<and>
         (\<forall>t < vec_thread_size. at_pc (threads s t) = Done \<longrightarrow>
            output_ok 10000 100000 (printed (threads s t))) \<and>
         length ts + work_left loop_bound vec_thread_size s = 1200220 \<and>
         (\<not> all_done vec_thread_size s \<longrightarrow>
            (\<exists>t < vec_thread_size. runnable (threads s t) \<and>
               (\<exists>s'. func_step loop_bound t s = Returns s'))) \<and>
         (all_done vec_thread_size s \<longrightarrow>
            store s =
              \<lparr>objs = [0 \<mapsto> [''apple'' \<mapsto> (''fruit'', 100000),
                              ''potato'' \<mapsto> (''vegetable'', 100000)]],
               mtxs = [1 \<mapsto> Free], next_addr = 2\<rparr> \<and>
            (\<forall>u. safe_ptr_call u (Const (safe_ptr_copy safe_map_strings_global))
                    (Const_member (\<lambda>m. (m ''apple'', m ''potato''))) (store s) =
                  Returns ((Some (''fruit'', 100000), Some (''vegetable'', 100000)), store s)))"
proof -
  let ?N = vec_thread_size and ?K = loop_bound
  have B: "?N * ?K < 2147483647" by (simp add: vec_thread_size_def loop_bound_def)
  have N: "0 < ?N" by (simp add: vec_thread_size_def)
  have NK: "int (?N * ?K) = 100000" by (simp add: vec_thread_size_def loop_bound_def)
  note r = run_inv [OF inv_start assms]
  then have I: "inv ?K ?N s" by simp
  have w0: "work_left ?K ?N start_state = 1200220"
    by (simp add: work_left_def start_state_def start_thread_def vec_thread_size_def
        loop_bound_def)
  have 1: "\<forall>n. counter (the_map s) n = int (total ?N s n)"
    using I by (simp add: inv_def data_ok_def)
  have 2: "\<forall>t u. t < ?N \<and> u < ?N \<and> 0 < holds (at_pc (threads s t)) \<and>
      0 < holds (at_pc (threads s u)) \<longrightarrow> t = u"
    using mutual_exclusion [OF I] by blast
  have 3: "at_pc (threads s t) \<noteq> Terminated \<and>
      (runnable (threads s t) \<longrightarrow>
         func_step ?K t s \<noteq> Undefined \<and> func_step ?K t s \<noteq> Ill_formed \<and>
         func_step ?K t s \<noteq> Throws \<and>
         (\<forall>s'. func_step ?K t s = Returns s' \<and> the_map s' \<noteq> the_map s \<longrightarrow>
               0 < holds (at_pc (threads s t))))"
    if "t < ?N" for t
  proof -
    have "at_pc (threads s t) \<noteq> Terminated"
      using I that by (auto simp: inv_def local_ok_def)
    moreover have "func_step ?K t s \<noteq> Undefined \<and> func_step ?K t s \<noteq> Ill_formed \<and>
        func_step ?K t s \<noteq> Throws"
      if "runnable (threads s t)"
      using step_defined [OF I \<open>t < ?N\<close> B that] by auto
    moreover have "0 < holds (at_pc (threads s t))"
      if "runnable (threads s t)" "func_step ?K t s = Returns s'" "the_map s' \<noteq> the_map s"
      for s'
      using step_cases [OF I \<open>t < ?N\<close> that(2,1)] that(3) by simp
    ultimately show ?thesis by blast
  qed
  have 4: "length ts + work_left ?K ?N s = 1200220"
    using r w0 by simp
  have 7: "output_ok 10000 100000 (printed (threads s t))"
    if "t < ?N" "at_pc (threads s t) = Done" for t
  proof -
    have "prints_ok ?K ?N s"
      by (rule run_prints [OF inv_start prints_start assms])
    with that have "output_ok (int ?K) (int (?N * ?K)) (printed (threads s t))"
      by (auto simp: prints_ok_def)
    then show ?thesis by (simp only: NK) (simp add: loop_bound_def)
  qed
  have 5: "\<exists>t < ?N. runnable (threads s t) \<and> (\<exists>s'. func_step ?K t s = Returns s')"
    if "\<not> all_done ?N s"
    by (rule progress [OF I B that])
  have 6: "store s =
        \<lparr>objs = [0 \<mapsto> [''apple'' \<mapsto> (''fruit'', 100000),
                        ''potato'' \<mapsto> (''vegetable'', 100000)]],
         mtxs = [1 \<mapsto> Free], next_addr = 2\<rparr> \<and>
      (\<forall>u. safe_ptr_call u (Const (safe_ptr_copy safe_map_strings_global))
              (Const_member (\<lambda>m. (m ''apple'', m ''potato''))) (store s) =
            Returns ((Some (''fruit'', 100000), Some (''vegetable'', 100000)), store s))"
    if "all_done ?N s"
  proof -
    let ?m = "[''apple'' \<mapsto> (''fruit'', 100000::int), ''potato'' \<mapsto> (''vegetable'', 100000)]"
    have st: "store s = mk_store ?m Free"
      using final_state [OF I that N] NK by simp
    have c: "safe_ptr_call u (Const (safe_ptr_copy safe_map_strings_global))
          (Const_member (\<lambda>m. (m ''apple'', m ''potato''))) (mk_store ?m Free) =
        Returns ((Some (''fruit'', 100000), Some (''vegetable'', 100000)), mk_store ?m Free)"
      for u
    proof -
      have "mtxs (mk_store ?m Free)
          (sp_mtx_ptr (unqual (Const (safe_ptr_copy safe_map_strings_global)))) = Some Free"
        by (simp add: mk_store_def safe_ptr_copy_def global_handle)
      from safe_ptr_call_acquired [OF this, of u "Held u 0"
          "Const_member (\<lambda>m. (m ''apple'', m ''potato''))"]
      show ?thesis by (simp add: safe_ptr_copy_def global_handle mk_store_def)
    qed
    show ?thesis
      unfolding st using c by (simp add: mk_store_def)
  qed
  show ?thesis
    using 1 2 3 4 5 6 7 by blast
qed

text \<open>
  The ten threads running one after the other: each takes its 120022 steps, all
  return, and the map holds 100000 for apple and for potato. Thread 0, the first to
  run, has written the counters as 10000; thread 9, the last, as 100000.
\<close>

theorem no_lost_updates_witness:
  "set (concat (map (replicate 120022) [0..<10])) \<subseteq> {..<vec_thread_size} \<and>
   (case run loop_bound (concat (map (replicate 120022) [0..<10])) start_state of
      Returns s \<Rightarrow>
        all_done vec_thread_size s \<and>
        store s =
          \<lparr>objs = [0 \<mapsto> [''apple'' \<mapsto> (''fruit'', 100000),
                          ''potato'' \<mapsto> (''vegetable'', 100000)]],
           mtxs = [1 \<mapsto> Free], next_addr = 2\<rparr> \<and>
        printed (threads s 0) =
          [Inl ''vegetable'', Inr 10000, Inl ''fruit'', Inr 10000] \<and>
        printed (threads s 9) =
          [Inl ''vegetable'', Inr 100000, Inl ''fruit'', Inr 100000]
    | Blocks \<Rightarrow> False
    | Throws \<Rightarrow> False
    | Undefined \<Rightarrow> False
    | Ill_formed \<Rightarrow> False)"
proof -
  let ?ts = "concat (map (replicate 120022) [0..<10])"
  have sub: "set ?ts \<subseteq> {..<vec_thread_size}"
    by (auto simp: vec_thread_size_def)
  have B: "10 * 10000 < (2147483647::nat)" by simp
  have st: "\<forall>u < 10. (u < 0 \<longrightarrow> at_pc (threads start_state u) = Done) \<and>
      (0 \<le> u \<longrightarrow> at_pc (threads start_state u) = Set_acquire Apple)"
    by (simp add: start_state_def start_thread_def)
  from one_after_the_other [OF inv_start B _ st prints_start, of 10]
  obtain s where s: "run 10000 ?ts start_state = Returns s" "all_done 10 s"
    and p: "\<forall>u. 0 \<le> u \<and> u < 10 \<longrightarrow>
        printed (threads s u) =
          [Inl ''vegetable'', Inr (int (Suc u * 10000)), Inl ''fruit'',
           Inr (int (Suc u * 10000))]"
    by auto
  from s have r: "run loop_bound ?ts start_state = Returns s" "all_done vec_thread_size s"
    by (simp_all add: loop_bound_def vec_thread_size_def)
  from no_lost_updates [OF sub r(1)] r(2)
  have m: "store s =
      \<lparr>objs = [0 \<mapsto> [''apple'' \<mapsto> (''fruit'', 100000),
                      ''potato'' \<mapsto> (''vegetable'', 100000)]],
       mtxs = [1 \<mapsto> Free], next_addr = 2\<rparr>"
    by blast
  from p have p0: "printed (threads s 0) =
      [Inl ''vegetable'', Inr 10000, Inl ''fruit'', Inr 10000]"
    by simp
  from p have "printed (threads s 9) =
      [Inl ''vegetable'', Inr (int (Suc 9 * 10000)), Inl ''fruit'',
       Inr (int (Suc 9 * 10000))]"
    by simp
  then have p9: "printed (threads s 9) =
      [Inl ''vegetable'', Inr 100000, Inl ''fruit'', Inr 100000]"
    by simp
  from sub r m p0 p9 show ?thesis by simp
qed

end
